theory Spec2Isabelle
  imports Complex_Main "HOL-Library.Monad_Syntax"
begin

section \<open>Cat and Mouse: the game simulation of main.cpp\<close>

text \<open>
  The program is a single-threaded GLUT application whose game logic lives in global
  variables mutated by callbacks.  The globals become one record, every callback becomes
  a function from the record to the updated record, and the three things the callbacks
  obtain from their environment are made explicit:
  \<^item> \<open>glutGet(GLUT_ELAPSED_TIME)\<close> is the argument \<open>now\<close> of the callbacks that read the clock;
  \<^item> \<open>rand()\<close> reads and advances the field \<open>rands\<close>, the sequence of its future results;
  \<^item> \<open>glutTimerFunc\<close> appends to the field \<open>timers\<close>, the callbacks GLUT has pending.

  Console output and \<open>glutPostRedisplay\<close> are not modelled, nor is the field
  \<open>sparklePhase\<close> of a power-up, a \<open>float\<close> that only the renderer reads.  C++ \<open>int\<close> is
  modelled as \<open>int\<close>: coordinates stay within \<open>-1 .. 23\<close>, scores within the number of cheese
  placed, and the reset counter and the clock would need \<open>2^31\<close> increments to overflow.
\<close>

subsection \<open>Configuration constants\<close>

definition ROWS :: int where "ROWS = 23"
definition COLS :: int where "COLS = 23"
definition TUNNEL_ROW_INDEX :: int where "TUNNEL_ROW_INDEX = 11"

definition TILE_WALL :: int where "TILE_WALL = 1"
definition TILE_PATH :: int where "TILE_PATH = 0"
definition TILE_BLOCKED :: int where "TILE_BLOCKED = 3"
definition TILE_SLOW_POWERUP :: int where "TILE_SLOW_POWERUP = 4"

definition PLAYER_START_X :: int where "PLAYER_START_X = 1"
definition PLAYER_START_Y :: int where "PLAYER_START_Y = 1"
definition CAT_START_X :: int where "CAT_START_X = 11"
definition CAT_START_Y :: int where "CAT_START_Y = 11"
definition MAX_LEVELS :: int where "MAX_LEVELS = 3"
definition NUM_CHEESE_TO_PLACE :: int where "NUM_CHEESE_TO_PLACE = 12"
definition NUM_POWERUPS_PER_LEVEL :: int where "NUM_POWERUPS_PER_LEVEL = 1"

definition CAT_SLOW_DURATION_MS :: int where "CAT_SLOW_DURATION_MS = 5000"
definition INITIAL_CAT_DELAY_MS :: int where "INITIAL_CAT_DELAY_MS = 350"
definition MIN_CAT_DELAY_MS :: int where "MIN_CAT_DELAY_MS = 150"

named_theorems config \<open>the values of the configuration constants\<close>

lemmas config_consts [config] =
  ROWS_def COLS_def TUNNEL_ROW_INDEX_def TILE_WALL_def TILE_PATH_def TILE_BLOCKED_def
  TILE_SLOW_POWERUP_def PLAYER_START_X_def PLAYER_START_Y_def CAT_START_X_def CAT_START_Y_def
  MAX_LEVELS_def NUM_CHEESE_TO_PLACE_def NUM_POWERUPS_PER_LEVEL_def CAT_SLOW_DURATION_MS_def
  INITIAL_CAT_DELAY_MS_def MIN_CAT_DELAY_MS_def

subsection \<open>The session state\<close>

datatype GameState =
  INTRO | START_MENU | PLAYING | PAUSED | GAME_OVER | GAME_WON_LEVEL | GAME_WON_FINAL

text \<open>A tile position is the pair \<open>(x, y)\<close>: column first, as in \<open>cheeseLocations\<close>.\<close>

type_synonym pos = "int \<times> int"

text \<open>\<open>int maze[ROWS][COLS]\<close>, row-major: \<open>maze[y][x]\<close> is \<open>tileAt m x y\<close>.\<close>

type_synonym grid = "int list list"

definition tileAt :: "grid \<Rightarrow> int \<Rightarrow> int \<Rightarrow> int" where
  "tileAt m x y = m ! nat y ! nat x"

record Powerup =
  pw_x :: int
  pw_y :: int
  pw_type :: int

text \<open>
  The callbacks handed to \<open>glutTimerFunc\<close>: \<open>catTimer\<close>, the lambda of \<open>nextLevel\<close> and the
  lambda of \<open>main\<close> that leaves the intro screen.  A pending timer is the triple of its
  delay in milliseconds, its callback and the \<open>int\<close> passed to the callback.
\<close>

datatype callback = CatTimer | NextLevelLambda | IntroLambda

type_synonym timer = "int \<times> callback \<times> int"

record session =
  currentGameState :: GameState
  playerX :: int
  playerY :: int
  catX :: int
  catY :: int
  maze :: grid
  currentLevel :: int
  score :: int
  totalScore :: int
  initialCheeseCount :: int
  cheeseLocations :: "pos list"
  powerupLocations :: "Powerup list"
  isCatSlowed :: bool
  catSlowDurationTimer :: int
  currentCatDelay :: int
  normalCatDelayBeforeSlowdown :: int
  lastTickTime :: int
  timerActive :: bool
  resetIdentifier :: int
  rands :: "nat \<Rightarrow> nat"
  timers :: "timer list"

text \<open>
  How a callback ends other than by returning: \<open>exit(0)\<close> on the escape key, or a loop
  that never leaves (the \<open>while(true)\<close> of \<open>moveCat\<close> is the only candidate).
\<close>

datatype halt = Exited | Diverged

subsection \<open>Maze layouts\<close>

definition layout1 :: grid where
  "layout1 = [
    [1,1,1,1,1,1,1,1,1,1,1,1,1,1,1,1,1,1,1,1,1,1,1],
    [1,0,0,0,1,0,0,0,0,0,0,0,0,0,0,0,0,0,1,0,0,0,1],
    [1,0,1,0,1,0,1,1,1,1,1,0,1,1,1,1,1,0,1,0,1,0,1],
    [1,0,0,0,0,0,0,0,1,0,0,0,0,0,1,0,0,0,0,0,0,0,1],
    [1,1,1,0,1,0,1,0,1,0,1,1,1,0,1,0,1,0,1,0,1,1,1],
    [1,0,0,0,1,0,1,0,1,0,1,3,1,0,1,0,1,0,1,0,0,0,1],
    [1,0,1,0,1,0,1,0,1,0,1,1,1,0,1,0,1,0,1,0,1,0,1],
    [1,0,0,0,1,0,1,0,0,0,0,0,0,0,0,0,1,0,1,0,0,0,1],
    [1,1,1,1,1,0,1,0,1,1,1,1,1,1,1,0,1,0,1,1,1,1,1],
    [1,0,0,0,0,0,1,0,0,0,0,0,0,0,0,0,1,0,0,0,0,0,1],
    [1,0,1,1,1,1,1,0,1,1,1,0,1,1,1,0,1,1,1,1,1,0,1],
    [0,0,0,0,0,0,0,0,1,0,0,0,0,0,1,0,0,0,0,0,0,0,0],
    [1,0,1,1,1,1,1,0,1,1,1,1,1,1,1,0,1,1,1,1,1,0,1],
    [1,0,0,0,0,0,1,0,0,0,0,0,0,0,0,0,1,0,0,0,0,0,1],
    [1,1,1,1,1,0,1,0,1,1,1,1,1,1,1,0,1,0,1,1,1,1,1],
    [1,0,0,0,1,0,1,0,0,0,0,0,0,0,0,0,1,0,1,0,0,0,1],
    [1,0,1,0,1,0,1,0,1,0,1,1,1,0,1,0,1,0,1,0,1,0,1],
    [1,0,0,0,1,0,1,0,1,0,1,3,1,0,1,0,1,0,1,0,0,0,1],
    [1,1,1,0,1,0,1,0,1,0,1,1,1,0,1,0,1,0,1,0,1,1,1],
    [1,0,0,0,0,0,0,0,1,0,0,0,0,0,1,0,0,0,0,0,0,0,1],
    [1,0,1,0,1,0,1,1,1,1,1,0,1,1,1,1,1,0,1,0,1,0,1],
    [1,0,0,0,1,0,0,0,0,0,0,0,0,0,0,0,0,0,1,0,0,0,1],
    [1,1,1,1,1,1,1,1,1,1,1,1,1,1,1,1,1,1,1,1,1,1,1]]"

definition layout2 :: grid where
  "layout2 = [
    [1,1,1,1,1,1,1,1,1,1,1,1,1,1,1,1,1,1,1,1,1,1,1],
    [1,0,0,0,0,0,0,0,0,0,0,1,0,0,0,0,0,0,0,0,0,0,1],
    [1,0,1,1,1,0,1,1,1,1,0,1,0,1,1,1,1,1,0,1,1,0,1],
    [1,0,0,0,1,0,0,0,0,0,0,0,0,0,0,0,0,1,0,1,0,0,1],
    [1,1,1,0,1,1,1,0,1,1,1,1,1,1,1,1,0,1,0,1,1,0,1],
    [1,0,0,0,0,0,1,0,0,0,0,0,0,0,0,1,0,0,0,0,0,0,1],
    [1,0,1,1,1,0,1,1,1,1,0,1,0,1,0,1,1,1,1,1,1,0,1],
    [1,0,1,0,0,0,0,0,0,1,0,1,0,1,0,0,0,0,0,0,1,0,1],
    [1,0,1,0,1,1,1,1,0,1,0,1,0,1,1,1,1,1,1,0,1,0,1],
    [1,0,0,0,0,0,0,1,0,0,0,0,0,1,0,0,0,0,1,0,0,0,1],
    [1,1,1,1,1,1,0,1,1,1,1,0,1,1,1,0,1,0,1,1,1,1,1],
    [0,0,0,0,0,0,0,0,0,0,0,0,0,0,0,0,0,0,0,0,0,0,0],
    [1,1,1,1,1,1,0,1,1,1,1,0,1,1,1,0,1,0,1,1,1,1,1],
    [1,0,0,0,0,0,0,1,0,0,0,0,0,1,0,0,0,0,1,0,0,0,1],
    [1,0,1,0,1,1,1,1,0,1,0,1,0,1,1,1,1,1,1,0,1,0,1],
    [1,0,1,0,0,0,0,0,0,1,0,1,0,1,0,0,0,0,0,0,1,0,1],
    [1,0,1,1,1,0,1,1,1,1,0,1,0,1,0,1,1,1,1,1,1,0,1],
    [1,0,0,0,1,0,0,0,0,0,0,0,0,0,0,1,0,0,0,0,0,0,1],
    [1,1,1,0,1,1,1,0,1,1,1,1,1,1,1,1,0,1,0,1,1,0,1],
    [1,0,0,0,1,0,0,0,0,0,0,1,0,0,0,0,0,1,0,1,0,0,1],
    [1,0,1,1,1,0,1,1,1,1,0,1,0,1,1,1,1,1,0,1,1,0,1],
    [1,0,0,0,0,0,0,0,0,0,0,1,0,0,0,0,0,0,0,0,0,0,1],
    [1,1,1,1,1,1,1,1,1,1,1,1,1,1,1,1,1,1,1,1,1,1,1]]"

definition layout3 :: grid where
  "layout3 = [
    [1,1,1,1,1,1,1,1,1,1,1,1,1,1,1,1,1,1,1,1,1,1,1],
    [1,0,1,0,0,0,1,0,0,0,1,0,1,0,0,0,1,0,0,0,1,0,1],
    [1,0,1,0,1,0,1,0,1,0,1,0,1,0,1,0,0,0,1,0,1,0,1],
    [1,0,0,0,1,0,0,0,1,0,1,0,1,0,1,1,1,0,1,0,0,0,1],
    [1,0,1,1,1,1,1,0,1,0,1,0,1,0,0,0,1,0,1,1,1,0,1],
    [1,0,0,0,1,0,0,0,1,0,0,0,1,1,1,0,1,0,0,0,1,0,1],
    [1,1,1,0,1,0,1,1,1,0,1,0,0,0,1,0,1,1,1,0,1,0,1],
    [1,0,0,0,1,0,0,0,0,0,1,0,1,0,1,0,0,0,0,0,1,0,1],
    [1,0,1,1,1,1,1,1,1,0,1,0,1,0,1,1,1,1,1,0,1,0,1],
    [1,0,1,0,0,0,0,0,1,0,1,0,1,0,0,0,1,0,0,0,1,0,1],
    [1,0,1,0,1,1,1,0,1,0,1,0,1,1,1,0,1,0,1,1,1,0,1],
    [0,0,0,0,1,0,0,0,0,0,0,0,0,0,1,0,0,0,0,0,0,0,0],
    [1,0,1,0,1,1,1,0,1,0,1,0,1,1,1,0,1,0,1,1,1,0,1],
    [1,0,1,0,0,0,0,0,1,0,1,0,1,0,0,0,1,0,0,0,1,0,1],
    [1,0,1,1,1,1,1,1,1,0,1,0,1,0,1,1,1,1,1,0,1,0,1],
    [1,0,0,0,1,0,0,0,0,0,1,0,1,0,1,0,0,0,0,0,1,0,1],
    [1,1,1,0,1,0,1,1,1,0,1,0,0,0,1,0,1,1,1,0,1,0,1],
    [1,0,0,0,1,0,0,0,1,0,0,0,1,1,1,0,1,0,0,0,1,0,1],
    [1,0,1,1,1,1,1,0,1,0,1,0,1,0,0,0,1,0,1,1,1,0,1],
    [1,0,0,0,1,0,0,0,1,0,1,0,1,0,1,1,1,0,1,0,0,0,1],
    [1,0,1,0,1,0,1,0,1,0,1,0,1,0,1,0,0,0,1,0,1,0,1],
    [1,0,1,0,0,0,1,0,0,0,1,0,1,0,0,0,1,0,0,0,1,0,1],
    [1,1,1,1,1,1,1,1,1,1,1,1,1,1,1,1,1,1,1,1,1,1,1]]"

text \<open>\<open>initMaze\<close>: levels 2 and 3 select their layout, every other number the first.\<close>

definition initMaze :: "int \<Rightarrow> session \<Rightarrow> session" where
  "initMaze level s =
     s\<lparr>maze := (if level = 2 then layout2 else if level = 3 then layout3 else layout1)\<rparr>"

subsection \<open>Level population\<close>

text \<open>
  \<open>rand()\<close> returns the head of the sequence and leaves its tail.  Each attempt of either
  loop of \<open>initLevelData\<close> draws twice, the column first.
\<close>

definition maxAttempts :: int where
  "maxAttempts = ROWS * COLS * 10"

definition startTile :: "int \<Rightarrow> int \<Rightarrow> bool" where
  "startTile rx ry \<longleftrightarrow>
     (rx = PLAYER_START_X \<and> ry = PLAYER_START_Y) \<or> (rx = CAT_START_X \<and> ry = CAT_START_Y)"

text \<open>
  The cheese loop.  Its variables are \<open>placedCheese\<close>, \<open>attempts\<close>, \<open>cheeseLocations\<close> and the
  random sequence; it returns them as they are when the loop condition fails.
\<close>

function placeCheeseLoop ::
  "grid \<Rightarrow> int \<Rightarrow> int \<Rightarrow> pos list \<Rightarrow> (nat \<Rightarrow> nat) \<Rightarrow> int \<times> int \<times> pos list \<times> (nat \<Rightarrow> nat)" where
  "placeCheeseLoop m placedCheese attempts cheese rs =
     (if placedCheese < NUM_CHEESE_TO_PLACE \<and> attempts < maxAttempts then
        let rx = int (rs 0) mod COLS;
            ry = int (rs 1) mod ROWS;
            rs' = (\<lambda>i. rs (i + 2))
        in if tileAt m rx ry = TILE_PATH \<and> \<not> startTile rx ry
              \<and> \<not> list_ex (\<lambda>loc. fst loc = rx \<and> snd loc = ry) cheese
           then placeCheeseLoop m (placedCheese + 1) (attempts + 1) (cheese @ [(rx, ry)]) rs'
           else placeCheeseLoop m placedCheese (attempts + 1) cheese rs'
      else (placedCheese, attempts, cheese, rs))"
  by pat_completeness auto
termination
  by (relation "measure (\<lambda>(m, placedCheese, attempts, cheese, rs). nat (maxAttempts - attempts))")
     auto

declare placeCheeseLoop.simps [simp del]

text \<open>The power-up loop, which also reads the cheese already placed.\<close>

function placePowerupLoop ::
  "grid \<Rightarrow> pos list \<Rightarrow> int \<Rightarrow> int \<Rightarrow> Powerup list \<Rightarrow> (nat \<Rightarrow> nat)
     \<Rightarrow> int \<times> int \<times> Powerup list \<times> (nat \<Rightarrow> nat)" where
  "placePowerupLoop m cheese placedPowerups attempts pws rs =
     (if placedPowerups < NUM_POWERUPS_PER_LEVEL \<and> attempts < maxAttempts then
        let rx = int (rs 0) mod COLS;
            ry = int (rs 1) mod ROWS;
            rs' = (\<lambda>i. rs (i + 2))
        in if tileAt m rx ry = TILE_PATH \<and> \<not> startTile rx ry
              \<and> \<not> list_ex (\<lambda>loc. fst loc = rx \<and> snd loc = ry) cheese
              \<and> \<not> list_ex (\<lambda>p. pw_x p = rx \<and> pw_y p = ry) pws
           then placePowerupLoop m cheese (placedPowerups + 1) (attempts + 1)
                  (pws @ [\<lparr>pw_x = rx, pw_y = ry, pw_type = TILE_SLOW_POWERUP\<rparr>]) rs'
           else placePowerupLoop m cheese placedPowerups (attempts + 1) pws rs'
      else (placedPowerups, attempts, pws, rs))"
  by pat_completeness auto
termination
  by (relation "measure (\<lambda>(m, cheese, placedPowerups, attempts, pws, rs). nat (maxAttempts - attempts))")
     auto

declare placePowerupLoop.simps [simp del]

definition initLevelData :: "session \<Rightarrow> session" where
  "initLevelData s =
     (case placeCheeseLoop (maze s) 0 0 [] (rands s) of
        (placedCheese, attempts, cheese, rs) \<Rightarrow>
     (case placePowerupLoop (maze s) cheese 0 0 [] rs of
        (placedPowerups, attempts', pws, rs') \<Rightarrow>
        s\<lparr>score := 0,
          currentCatDelay := INITIAL_CAT_DELAY_MS,
          cheeseLocations := cheese,
          powerupLocations := pws,
          initialCheeseCount := int (length cheese),
          playerX := PLAYER_START_X,
          playerY := PLAYER_START_Y,
          catX := CAT_START_X,
          catY := CAT_START_Y,
          isCatSlowed := False,
          catSlowDurationTimer := 0,
          normalCatDelayBeforeSlowdown := INITIAL_CAT_DELAY_MS,
          rands := rs'\<rparr>))"

subsection \<open>The cat: breadth-first search and one step along the path found\<close>

text \<open>
  The locals of \<open>moveCat\<close> that the search loop changes.  \<open>visited[y][x]\<close> is
  \<open>visited b (x, y)\<close>; \<open>parent[y][x]\<close> is the pair \<open>parent b (x, y)\<close>, initially \<open>(-1, -1)\<close>;
  \<open>(targetX, targetY)\<close> is \<open>target b\<close>.
\<close>

record bfs =
  queue :: "pos list"
  visited :: "pos \<Rightarrow> bool"
  parent :: "pos \<Rightarrow> pos"
  target :: pos
  found :: bool

definition dx :: "int list" where "dx = [0, 0, -1, 1]"
definition dy :: "int list" where "dy = [-1, 1, 0, 0]"

text \<open>The body of the \<open>for\<close> loop over the four directions, for direction \<open>i\<close>.\<close>

definition visitDirection :: "grid \<Rightarrow> pos \<Rightarrow> pos \<Rightarrow> nat \<Rightarrow> bfs \<Rightarrow> bfs" where
  "visitDirection m player current i b =
     (let nx0 = fst current + dx ! i;
          ny = snd current + dy ! i;
          nx = (if ny = TUNNEL_ROW_INDEX
                then (if nx0 < 0 then COLS - 1 else if nx0 \<ge> COLS then 0 else nx0)
                else nx0)
      in if nx \<ge> 0 \<and> nx < COLS \<and> ny \<ge> 0 \<and> ny < ROWS \<and> tileAt m nx ny = TILE_PATH
            \<and> \<not> visited b (nx, ny)
         then let b' = b\<lparr>visited := (visited b)((nx, ny) := True),
                        parent := (parent b)((nx, ny) := current),
                        queue := queue b @ [(nx, ny)]\<rparr>
              in if nx = fst player \<and> ny = snd player
                 then b'\<lparr>target := (nx, ny), found := True\<rparr>
                 else b'
         else b)"

text \<open>\<open>for (int i = 0; i < 4 && !found; ++i)\<close>, entered with the given \<open>i\<close>.\<close>

function directionLoop :: "grid \<Rightarrow> pos \<Rightarrow> pos \<Rightarrow> nat \<Rightarrow> bfs \<Rightarrow> bfs" where
  "directionLoop m player current i b =
     (if i < 4 \<and> \<not> found b
      then directionLoop m player current (i + 1) (visitDirection m player current i b)
      else b)"
  by pat_completeness auto
termination
  by (relation "measure (\<lambda>(m, player, current, i, b). 4 - i)") auto

declare directionLoop.simps [simp del]

text \<open>
  The search loop ends because every pass removes one tile from the queue and every tile
  enters the queue at most once: twice the number of unvisited tiles of the grid plus
  the length of the queue decreases.
\<close>

definition inGrid :: "pos \<Rightarrow> bool" where
  "inGrid p \<longleftrightarrow> 0 \<le> fst p \<and> fst p < COLS \<and> 0 \<le> snd p \<and> snd p < ROWS"

definition unvisited :: "bfs \<Rightarrow> pos set" where
  "unvisited b = {p. inGrid p \<and> \<not> visited b p}"

definition bfsMeasure :: "bfs \<Rightarrow> nat" where
  "bfsMeasure b = 2 * card (unvisited b) + length (queue b)"

lemma inGrid_set: "{p. inGrid p} = {0..<COLS} \<times> {0..<ROWS}"
  by (auto simp: inGrid_def)

lemma finite_unvisited: "finite (unvisited b)"
proof -
  have "unvisited b \<subseteq> {0..<COLS} \<times> {0..<ROWS}"
    using inGrid_set by (auto simp: unvisited_def)
  then show ?thesis
    by (rule finite_subset) simp
qed

text \<open>
  The tile that direction \<open>i\<close> of the loop body resolves to, what makes it a tile the search
  may enter, and the three assignments that enter it; the body is restated with them.
\<close>

definition neighbour :: "pos \<Rightarrow> nat \<Rightarrow> pos" where
  "neighbour c i =
     (let nx0 = fst c + dx ! i; ny = snd c + dy ! i
      in (if ny = TUNNEL_ROW_INDEX
          then (if nx0 < 0 then COLS - 1 else if nx0 \<ge> COLS then 0 else nx0)
          else nx0, ny))"

definition enterable :: "grid \<Rightarrow> pos \<Rightarrow> bool" where
  "enterable m p \<longleftrightarrow> inGrid p \<and> tileAt m (fst p) (snd p) = TILE_PATH"

definition markVisited :: "pos \<Rightarrow> pos \<Rightarrow> bfs \<Rightarrow> bfs" where
  "markVisited current p b =
     b\<lparr>visited := (visited b)(p := True), parent := (parent b)(p := current),
       queue := queue b @ [p]\<rparr>"

lemma visit_candidate:
  "(if nx \<ge> 0 \<and> nx < COLS \<and> ny \<ge> 0 \<and> ny < ROWS \<and> tileAt m nx ny = TILE_PATH
            \<and> \<not> visited b (nx, ny)
         then let b' = b\<lparr>visited := (visited b)((nx, ny) := True),
                        parent := (parent b)((nx, ny) := current),
                        queue := queue b @ [(nx, ny)]\<rparr>
              in if nx = fst player \<and> ny = snd player
                 then b'\<lparr>target := (nx, ny), found := True\<rparr>
                 else b'
         else b) =
   (if enterable m (nx, ny) \<and> \<not> visited b (nx, ny)
    then (if (nx, ny) = player
          then (markVisited current (nx, ny) b)\<lparr>target := (nx, ny), found := True\<rparr>
          else markVisited current (nx, ny) b)
    else b)"
  by (auto simp: enterable_def inGrid_def markVisited_def Let_def)

lemma visitDirection_eq:
  "visitDirection m player current i b =
     (if enterable m (neighbour current i) \<and> \<not> visited b (neighbour current i)
      then (if neighbour current i = player
            then (markVisited current (neighbour current i) b)
                   \<lparr>target := neighbour current i, found := True\<rparr>
            else markVisited current (neighbour current i) b)
      else b)"
proof -
  define ny where "ny = snd current + dy ! i"
  define nx where "nx = (if ny = TUNNEL_ROW_INDEX
          then (if fst current + dx ! i < 0 then COLS - 1
                else if fst current + dx ! i \<ge> COLS then 0 else fst current + dx ! i)
          else fst current + dx ! i)"
  have n: "neighbour current i = (nx, ny)"
    by (simp add: neighbour_def Let_def nx_def ny_def)
  have "visitDirection m player current i b =
    (if nx \<ge> 0 \<and> nx < COLS \<and> ny \<ge> 0 \<and> ny < ROWS \<and> tileAt m nx ny = TILE_PATH
            \<and> \<not> visited b (nx, ny)
         then let b' = b\<lparr>visited := (visited b)((nx, ny) := True),
                        parent := (parent b)((nx, ny) := current),
                        queue := queue b @ [(nx, ny)]\<rparr>
              in if nx = fst player \<and> ny = snd player
                 then b'\<lparr>target := (nx, ny), found := True\<rparr>
                 else b'
         else b)"
    unfolding visitDirection_def Let_def nx_def ny_def ..
  then show ?thesis
    unfolding n visit_candidate .
qed

lemma bfsMeasure_target_found [simp]:
  "bfsMeasure (b\<lparr>target := t, found := f\<rparr>) = bfsMeasure b"
  by (simp add: bfsMeasure_def unvisited_def)

lemma markVisited_measure:
  assumes "inGrid p" "\<not> visited b p"
  shows "bfsMeasure (markVisited current p b) < bfsMeasure b"
proof -
  have "unvisited (markVisited current p b) = unvisited b - {p}"
    by (auto simp: unvisited_def markVisited_def)
  moreover have "p \<in> unvisited b"
    using assms by (simp add: unvisited_def)
  moreover have "card (unvisited b - {p}) < card (unvisited b)"
    using \<open>p \<in> unvisited b\<close> finite_unvisited [of b] by (rule_tac card_Diff1_less)
  ultimately show ?thesis
    by (simp add: bfsMeasure_def markVisited_def)
qed

lemma visitDirection_measure: "bfsMeasure (visitDirection m player current i b) \<le> bfsMeasure b"
proof (cases "enterable m (neighbour current i) \<and> \<not> visited b (neighbour current i)")
  case True
  then have "bfsMeasure (markVisited current (neighbour current i) b) < bfsMeasure b"
    by (intro markVisited_measure) (simp_all add: enterable_def)
  then show ?thesis
    using True by (auto simp: visitDirection_eq)
next
  case False
  then show ?thesis
    by (auto simp: visitDirection_eq)
qed

lemma directionLoop_measure: "bfsMeasure (directionLoop m player current i b) \<le> bfsMeasure b"
proof (induction m player current i b rule: directionLoop.induct)
  case (1 m player current i b)
  show ?case
  proof (cases "i < 4 \<and> \<not> found b")
    case True
    then have "bfsMeasure (directionLoop m player current i b)
        \<le> bfsMeasure (visitDirection m player current i b)"
      using "1.IH" by (subst directionLoop.simps) simp
    also have "\<dots> \<le> bfsMeasure b"
      by (rule visitDirection_measure)
    finally show ?thesis .
  next
    case False
    then show ?thesis by (subst directionLoop.simps) auto
  qed
qed

text \<open>The \<open>while (!q.empty() && !found)\<close> loop.\<close>

function bfsLoop :: "grid \<Rightarrow> pos \<Rightarrow> bfs \<Rightarrow> bfs" where
  "bfsLoop m player b =
     (if queue b \<noteq> [] \<and> \<not> found b then
        let current = hd (queue b);
            b1 = b\<lparr>queue := tl (queue b)\<rparr>
        in if fst current = fst player \<and> snd current = snd player
           then b1\<lparr>target := current, found := True\<rparr>
           else bfsLoop m player (directionLoop m player current 0 b1)
      else b)"
  by pat_completeness auto
termination
proof (relation "measure (\<lambda>(m, player, b). bfsMeasure b)")
  show "wf (measure (\<lambda>(m, player, b). bfsMeasure b))"
    by simp
next
  fix m :: grid and player :: pos and b :: bfs and x xa
  assume a: "queue b \<noteq> [] \<and> \<not> found b" and x: "x = hd (queue b)" and xa: "xa = b\<lparr>queue := tl (queue b)\<rparr>"
  have "bfsMeasure (directionLoop m player x 0 xa) \<le> bfsMeasure xa"
    by (rule directionLoop_measure)
  also have "\<dots> < bfsMeasure b"
    using a by (cases "queue b") (simp_all add: xa bfsMeasure_def unvisited_def)
  finally show "((m, player, directionLoop m player x 0 xa), m, player, b)
       \<in> measure (\<lambda>(m, player, b). bfsMeasure b)"
    by simp
qed

declare bfsLoop.simps [simp del]

declare bfsLoop.simps [simp del]

text \<open>
  The \<open>while(true)\<close> loop that walks the \<open>parent\<close> entries back from the target.  It returns
  \<open>(nextStepX, nextStepY)\<close>, which is \<open>(-1, -1)\<close> when the loop leaves through one of its
  first two \<open>break\<close>s.  Nothing in the loop itself bounds it, hence the option.
\<close>

partial_function (option) backtrack :: "(pos \<Rightarrow> pos) \<Rightarrow> pos \<Rightarrow> pos \<Rightarrow> pos option" where
  "backtrack par cat c =
     (if c = cat then Some (-1, -1)
      else let p = par c
           in if p = (-1, -1) then Some (-1, -1)
              else if p = cat then Some c
              else backtrack par cat p)"

definition bfsInit :: "pos \<Rightarrow> bfs" where
  "bfsInit cat =
     \<lparr>queue = [cat], visited = (\<lambda>p. False)(cat := True), parent = (\<lambda>p. (-1, -1)),
      target = (-1, -1), found = False\<rparr>"

definition caught :: "session \<Rightarrow> session" where
  "caught s =
     (if catX s = playerX s \<and> catY s = playerY s \<and> currentGameState s = PLAYING
      then s\<lparr>totalScore := totalScore s + score s, score := 0,
             currentGameState := GAME_OVER, timerActive := False\<rparr>
      else s)"

definition moveCat :: "session \<Rightarrow> halt + session" where
  "moveCat s =
     (let cat = (catX s, catY s);
          b = bfsLoop (maze s) (playerX s, playerY s) (bfsInit cat)
      in if \<not> found b then Inr s
         else case backtrack (parent b) cat (target b) of
                None \<Rightarrow> Inl Diverged
              | Some nextStep \<Rightarrow>
                  Inr (caught (if fst nextStep \<noteq> -1
                               then s\<lparr>catX := fst nextStep, catY := snd nextStep\<rparr>
                               else s)))"

text \<open>\<open>catTimer\<close>; its last statement hands itself back to GLUT.\<close>

definition catTimer :: "int \<Rightarrow> session \<Rightarrow> halt + session" where
  "catTimer val s =
     (if val \<noteq> resetIdentifier s \<and> currentGameState s \<noteq> START_MENU then Inr s
      else if currentGameState s = PLAYING \<and> timerActive s then
        (case (if \<not> isCatSlowed s then moveCat s else Inr s) of
           Inl h \<Rightarrow> Inl h
         | Inr s1 \<Rightarrow>
             Inr (s1\<lparr>timers := timers s1 @ [(currentCatDelay s1, CatTimer, resetIdentifier s1)]\<rparr>))
      else Inr s)"

subsection \<open>Game flow\<close>

definition resetGame :: "int \<Rightarrow> session \<Rightarrow> halt + session" where
  "resetGame now s =
     (let s1 = s\<lparr>resetIdentifier := resetIdentifier s + 1, timerActive := False,
                 currentLevel := 1, totalScore := 0\<rparr>;
          s2 = initLevelData (initMaze (currentLevel s1) s1);
          s3 = s2\<lparr>currentGameState := PLAYING, timerActive := True, lastTickTime := now\<rparr>
      in catTimer (resetIdentifier s3) s3)"

definition nextLevel :: "session \<Rightarrow> session" where
  "nextLevel s =
     (let s1 = s\<lparr>totalScore := totalScore s + score s, score := 0,
                 currentLevel := currentLevel s + 1, timerActive := False\<rparr>
      in if currentLevel s1 > MAX_LEVELS
         then s1\<lparr>currentGameState := GAME_WON_FINAL\<rparr>
         else s1\<lparr>currentGameState := GAME_WON_LEVEL,
                 timers := timers s1 @ [(2000, NextLevelLambda, currentLevel s1)]\<rparr>)"

text \<open>The lambda that \<open>nextLevel\<close> schedules, called with the level number it captured.\<close>

definition nextLevelLambda :: "int \<Rightarrow> int \<Rightarrow> session \<Rightarrow> halt + session" where
  "nextLevelLambda now v s =
     (let s1 = s\<lparr>resetIdentifier := resetIdentifier s + 1\<rparr>;
          s2 = initLevelData (initMaze v s1);
          s3 = s2\<lparr>currentGameState := PLAYING, timerActive := True, lastTickTime := now\<rparr>
      in catTimer (resetIdentifier s3) s3)"

text \<open>The lambda that \<open>main\<close> schedules.\<close>

definition introLambda :: "session \<Rightarrow> session" where
  "introLambda s =
     (if currentGameState s = INTRO then s\<lparr>currentGameState := START_MENU\<rparr> else s)"

subsection \<open>Cat speed\<close>

text \<open>
  The two statements that recompute \<open>currentCatDelay\<close> from \<open>progress\<close>, which the source
  writes out twice, in \<open>processPlayerMove\<close> and in \<open>idle\<close>.  The \<open>float\<close> arithmetic is
  taken as exact real arithmetic; \<open>(int)\<close> truncates towards zero.  The source's \<open>sqrt\<close>
  of a negative \<open>progress\<close> is not a number, which is not modelled: \<open>delayFor\<close> stands for
  the two statements where \<open>progress\<close> is not negative, as it is wherever they run (the
  score starts at zero and only goes up, and the division is guarded by a positive count).
\<close>

definition truncToInt :: "real \<Rightarrow> int" where
  "truncToInt r = (if 0 \<le> r then \<lfloor>r\<rfloor> else \<lceil>r\<rceil>)"

definition delayFor :: "real \<Rightarrow> int" where
  "delayFor progress =
     max MIN_CAT_DELAY_MS
       (MIN_CAT_DELAY_MS
          + truncToInt (real_of_int (INITIAL_CAT_DELAY_MS - MIN_CAT_DELAY_MS) * (1 - sqrt progress)))"

definition progressOf :: "session \<Rightarrow> real" where
  "progressOf s = real_of_int (score s) / real_of_int (initialCheeseCount s)"

subsection \<open>Player moves\<close>

text \<open>
  The iterator loop over \<open>cheeseLocations\<close>: it erases the first entry at the player's tile
  and stops; \<open>None\<close> when it runs to the end without a match.
\<close>

fun eraseCheeseAt :: "int \<Rightarrow> int \<Rightarrow> pos list \<Rightarrow> pos list option" where
  "eraseCheeseAt x y [] = None"
| "eraseCheeseAt x y (loc # rest) =
     (if fst loc = x \<and> snd loc = y then Some rest
      else map_option (Cons loc) (eraseCheeseAt x y rest))"

text \<open>
  The iterator loop over \<open>powerupLocations\<close>, entered with the cat not slowed (when it is
  slowed the loop passes over every entry): it erases the first slow power-up at the
  player's tile.
\<close>

fun erasePowerupAt :: "int \<Rightarrow> int \<Rightarrow> Powerup list \<Rightarrow> Powerup list option" where
  "erasePowerupAt x y [] = None"
| "erasePowerupAt x y (p # rest) =
     (if pw_x p = x \<and> pw_y p = y \<and> pw_type p = TILE_SLOW_POWERUP then Some rest
      else map_option (Cons p) (erasePowerupAt x y rest))"

definition collectPowerup :: "session \<Rightarrow> session" where
  "collectPowerup s =
     (if isCatSlowed s then s
      else case erasePowerupAt (playerX s) (playerY s) (powerupLocations s) of
             None \<Rightarrow> s
           | Some rest \<Rightarrow>
               s\<lparr>isCatSlowed := True,
                 catSlowDurationTimer := CAT_SLOW_DURATION_MS,
                 normalCatDelayBeforeSlowdown := currentCatDelay s,
                 currentCatDelay := max (currentCatDelay s) (INITIAL_CAT_DELAY_MS + 100),
                 powerupLocations := rest\<rparr>)"

definition processPlayerMove :: "int \<Rightarrow> int \<Rightarrow> session \<Rightarrow> session" where
  "processPlayerMove nextX0 nextY s =
     (let nextX = (if nextY = TUNNEL_ROW_INDEX
                   then (if nextX0 < 0 then COLS - 1 else if nextX0 \<ge> COLS then 0 else nextX0)
                   else nextX0)
      in if nextX \<ge> 0 \<and> nextX < COLS \<and> nextY \<ge> 0 \<and> nextY < ROWS
            \<and> tileAt (maze s) nextX nextY = TILE_PATH
         then
           let s1 = s\<lparr>playerX := nextX, playerY := nextY\<rparr>
           in case eraseCheeseAt (playerX s1) (playerY s1) (cheeseLocations s1) of
                None \<Rightarrow> collectPowerup s1
              | Some rest \<Rightarrow>
                  let s2 = s1\<lparr>cheeseLocations := rest, score := score s1 + 1\<rparr>;
                      s3 = (if \<not> isCatSlowed s2 \<and> initialCheeseCount s2 > 0
                            then s2\<lparr>currentCatDelay := delayFor (progressOf s2),
                                    normalCatDelayBeforeSlowdown := delayFor (progressOf s2)\<rparr>
                            else s2)
                  in if cheeseLocations s3 = [] then nextLevel s3 else collectPowerup s3
         else s)"

subsection \<open>Input callbacks\<close>

text \<open>
  \<open>keyboard\<close> takes the key as the byte GLUT passes.  The codes of the special keys are
  those of \<open>GL/glut.h\<close>.
\<close>

definition isKey :: "char \<Rightarrow> char \<Rightarrow> char \<Rightarrow> bool" where
  "isKey key lower upper \<longleftrightarrow> key = lower \<or> key = upper"

definition ENTER_KEY :: char where "ENTER_KEY = CHR 0x0D"
definition ESCAPE_KEY :: char where "ESCAPE_KEY = CHR 0x1B"

definition keyboard :: "int \<Rightarrow> char \<Rightarrow> session \<Rightarrow> halt + session" where
  "keyboard now key s =
     (if currentGameState s = INTRO then Inr (s\<lparr>currentGameState := START_MENU\<rparr>)
      else if currentGameState s = START_MENU then
        (if key = ENTER_KEY then resetGame now s
         else if key = ESCAPE_KEY then Inl Exited
         else Inr s)
      else if currentGameState s = GAME_OVER \<or> currentGameState s = GAME_WON_FINAL
              \<or> currentGameState s = GAME_WON_LEVEL then
        (if isKey key CHR ''r'' CHR ''R'' \<and> currentGameState s \<noteq> GAME_WON_FINAL
         then resetGame now s
         else if key = ESCAPE_KEY then Inl Exited
         else Inr s)
      else if isKey key CHR ''p'' CHR ''P'' then
        (if currentGameState s = PLAYING
         then Inr (s\<lparr>currentGameState := PAUSED, timerActive := False\<rparr>)
         else if currentGameState s = PAUSED
         then (let s1 = s\<lparr>currentGameState := PLAYING, timerActive := True,
                           lastTickTime := now, resetIdentifier := resetIdentifier s + 1\<rparr>
               in catTimer (resetIdentifier s1) s1)
         else Inr s)
      else if key = ESCAPE_KEY then Inl Exited
      else if currentGameState s \<noteq> PLAYING then Inr s
      else if isKey key CHR ''r'' CHR ''R'' then resetGame now s
      else if isKey key CHR ''w'' CHR ''W'' then Inr (processPlayerMove (playerX s) (playerY s - 1) s)
      else if isKey key CHR ''s'' CHR ''S'' then Inr (processPlayerMove (playerX s) (playerY s + 1) s)
      else if isKey key CHR ''a'' CHR ''A'' then Inr (processPlayerMove (playerX s - 1) (playerY s) s)
      else if isKey key CHR ''d'' CHR ''D'' then Inr (processPlayerMove (playerX s + 1) (playerY s) s)
      else Inr s)"

definition GLUT_KEY_LEFT :: int where "GLUT_KEY_LEFT = 100"
definition GLUT_KEY_UP :: int where "GLUT_KEY_UP = 101"
definition GLUT_KEY_RIGHT :: int where "GLUT_KEY_RIGHT = 102"
definition GLUT_KEY_DOWN :: int where "GLUT_KEY_DOWN = 103"

definition specialKeyboard :: "int \<Rightarrow> session \<Rightarrow> session" where
  "specialKeyboard key s =
     (if currentGameState s \<noteq> PLAYING then s
      else if key = GLUT_KEY_UP then processPlayerMove (playerX s) (playerY s - 1) s
      else if key = GLUT_KEY_DOWN then processPlayerMove (playerX s) (playerY s + 1) s
      else if key = GLUT_KEY_LEFT then processPlayerMove (playerX s - 1) (playerY s) s
      else if key = GLUT_KEY_RIGHT then processPlayerMove (playerX s + 1) (playerY s) s
      else s)"

subsection \<open>The frame callback\<close>

text \<open>\<open>idle\<close>, called with the clock reading \<open>currentTime\<close>.\<close>

definition idle :: "int \<Rightarrow> session \<Rightarrow> session" where
  "idle currentTime s =
     (let deltaTime = currentTime - lastTickTime s
      in if deltaTime > 0 then
           let s1 =
             (if (currentGameState s = PLAYING \<or> currentGameState s = PAUSED)
                 \<and> isCatSlowed s \<and> currentGameState s = PLAYING
              then
                let s' = s\<lparr>catSlowDurationTimer := catSlowDurationTimer s - deltaTime\<rparr>
                in if catSlowDurationTimer s' \<le> 0
                   then s'\<lparr>isCatSlowed := False,
                           currentCatDelay :=
                             (if initialCheeseCount s' > 0 then delayFor (progressOf s')
                              else normalCatDelayBeforeSlowdown s')\<rparr>
                   else s'
              else s)
           in s1\<lparr>lastTickTime := currentTime\<rparr>
         else s)"

subsection \<open>Program start\<close>

text \<open>
  The globals as their initialisers leave them, then the statements of \<open>main\<close> that touch
  them: the intro timer, \<open>initMaze\<close>, \<open>initLevelData\<close> and the first clock reading.  The
  argument \<open>rs\<close> is what \<open>rand()\<close> will return after \<open>srand(time(0))\<close>.
\<close>

definition globals :: "(nat \<Rightarrow> nat) \<Rightarrow> session" where
  "globals rs =
     \<lparr>currentGameState = INTRO,
      playerX = PLAYER_START_X, playerY = PLAYER_START_Y,
      catX = CAT_START_X, catY = CAT_START_Y,
      maze = replicate (nat ROWS) (replicate (nat COLS) 0),
      currentLevel = 1, score = 0, totalScore = 0, initialCheeseCount = 0,
      cheeseLocations = [], powerupLocations = [],
      isCatSlowed = False, catSlowDurationTimer = 0,
      currentCatDelay = INITIAL_CAT_DELAY_MS, normalCatDelayBeforeSlowdown = 0,
      lastTickTime = 0, timerActive = False, resetIdentifier = 0,
      rands = rs, timers = []\<rparr>"

definition main :: "(nat \<Rightarrow> nat) \<Rightarrow> int \<Rightarrow> session" where
  "main rs now =
     (let s0 = globals rs;
          s1 = s0\<lparr>timers := timers s0 @ [(3500, IntroLambda, 0)]\<rparr>;
          s2 = initLevelData (initMaze (currentLevel s1) s1)
      in s2\<lparr>lastTickTime := now\<rparr>)"

section \<open>Notions used to state and prove the properties\<close>

text \<open>
  Everything above is the program.  What follows in this section is vocabulary: names for
  parts of the callbacks, graphs and distances, invariants of the search, runs of calls,
  and the concrete sessions the theorems are tried on.
\<close>

text \<open>
  The tunnel rule that \<open>processPlayerMove\<close> and the search loop of \<open>moveCat\<close> both write
  out, and the part of \<open>processPlayerMove\<close> behind its validity check, named so that the
  function can be restated as: resolve, check, enter.
\<close>

definition tunnelWrap :: "int \<Rightarrow> int \<Rightarrow> int" where
  "tunnelWrap nextX nextY =
     (if nextY = TUNNEL_ROW_INDEX
      then (if nextX < 0 then COLS - 1 else if nextX \<ge> COLS then 0 else nextX)
      else nextX)"

definition enterTile :: "int \<Rightarrow> int \<Rightarrow> session \<Rightarrow> session" where
  "enterTile nextX nextY s =
     (let s1 = s\<lparr>playerX := nextX, playerY := nextY\<rparr>
      in case eraseCheeseAt (playerX s1) (playerY s1) (cheeseLocations s1) of
           None \<Rightarrow> collectPowerup s1
         | Some rest \<Rightarrow>
             let s2 = s1\<lparr>cheeseLocations := rest, score := score s1 + 1\<rparr>;
                 s3 = (if \<not> isCatSlowed s2 \<and> initialCheeseCount s2 > 0
                       then s2\<lparr>currentCatDelay := delayFor (progressOf s2),
                               normalCatDelayBeforeSlowdown := delayFor (progressOf s2)\<rparr>
                       else s2)
             in if cheeseLocations s3 = [] then nextLevel s3 else collectPowerup s3)"

text \<open>A state in the first maze with the player at its start, below the top wall.\<close>

definition wallAhead :: session where
  "wallAhead =
     \<lparr>currentGameState = PLAYING, playerX = 1, playerY = 1, catX = 11, catY = 11,
      maze = layout1, currentLevel = 1, score = 3, totalScore = 0, initialCheeseCount = 12,
      cheeseLocations = [(2, 1), (3, 1), (5, 1), (6, 1), (7, 1), (8, 1), (9, 1), (10, 1), (12, 1)],
      powerupLocations = [],
      isCatSlowed = False, catSlowDurationTimer = 0,
      currentCatDelay = 250, normalCatDelayBeforeSlowdown = 250,
      lastTickTime = 0, timerActive = True, resetIdentifier = 1,
      rands = (\<lambda>i. 0), timers = []\<rparr>"

text \<open>
  \<open>walkOn E u n v\<close>: there are \<open>n\<close> consecutive edges of \<open>E\<close> leading from \<open>u\<close> to \<open>v\<close>.
  The distance is the length of a shortest walk (and meaningless when there is none).
\<close>

inductive walkOn :: "('a \<times> 'a) set \<Rightarrow> 'a \<Rightarrow> nat \<Rightarrow> 'a \<Rightarrow> bool" for E :: "('a \<times> 'a) set" where
  walk_stay: "walkOn E u 0 u"
| walk_step: "walkOn E u n v \<Longrightarrow> (v, w) \<in> E \<Longrightarrow> walkOn E u (Suc n) w"

definition distOn :: "('a \<times> 'a) set \<Rightarrow> 'a \<Rightarrow> 'a \<Rightarrow> nat" where
  "distOn E u v = (LEAST n. walkOn E u n v)"

text \<open>
  An edge leads from a tile to each tile that one of the four directions of the loop
  body resolves to and that the body may enter.  \<open>treeInv\<close> holds throughout the search:
  every visited tile other than the start has a visited parent one edge and one unit of
  distance closer to the start.  \<open>levelInv\<close> holds at the head of the \<open>while\<close> loop: the
  queue is sorted by distance and spans at most two levels, tiles that left the queue
  have all their successors visited, and everything at most as far as the head of the
  queue is visited.  \<open>expanding\<close> describes the state inside the \<open>for\<close> loop, where \<open>new\<close> are
  the tiles entered so far from \<open>u\<close>.
\<close>

definition edges :: "grid \<Rightarrow> (pos \<times> pos) set" where
  "edges m = {(u, w). (\<exists>i<4. neighbour u i = w) \<and> enterable m w}"

definition reaches :: "grid \<Rightarrow> pos \<Rightarrow> pos \<Rightarrow> bool" where
  "reaches m src v \<longleftrightarrow> (\<exists>n. walkOn (edges m) src n v)"

abbreviation dst :: "grid \<Rightarrow> pos \<Rightarrow> pos \<Rightarrow> nat" where
  "dst m src v \<equiv> distOn (edges m) src v"

definition treeInv :: "grid \<Rightarrow> pos \<Rightarrow> pos \<Rightarrow> bfs \<Rightarrow> bool" where
  "treeInv m src player b \<longleftrightarrow>
     visited b src \<and>
     (\<forall>v. visited b v \<longrightarrow> reaches m src v) \<and>
     (\<forall>v. visited b v \<and> v \<noteq> src \<longrightarrow>
        visited b (parent b v) \<and> (parent b v, v) \<in> edges m
        \<and> dst m src v = Suc (dst m src (parent b v))) \<and>
     (found b \<longrightarrow> target b = player \<and> visited b player)"

definition levelInv :: "grid \<Rightarrow> pos \<Rightarrow> pos \<Rightarrow> bfs \<Rightarrow> bool" where
  "levelInv m src player b \<longleftrightarrow>
     (\<forall>v\<in>set (queue b). visited b v) \<and>
     sorted (map (dst m src) (queue b)) \<and>
     (\<forall>v\<in>set (queue b). dst m src v \<le> Suc (dst m src (hd (queue b)))) \<and>
     (\<forall>v w. visited b v \<and> v \<notin> set (queue b) \<and> (v, w) \<in> edges m \<longrightarrow> visited b w) \<and>
     (queue b \<noteq> [] \<longrightarrow>
        (\<forall>v. reaches m src v \<and> dst m src v \<le> dst m src (hd (queue b)) \<longrightarrow> visited b v)) \<and>
     (queue b \<noteq> [] \<longrightarrow>
        (\<forall>v. visited b v \<and> v \<notin> set (queue b) \<longrightarrow> dst m src v \<le> dst m src (hd (queue b)))) \<and>
     (visited b player \<longrightarrow> queue b = [src] \<and> src = player)"

definition expanding ::
  "grid \<Rightarrow> pos \<Rightarrow> pos \<Rightarrow> bfs \<Rightarrow> pos \<Rightarrow> pos list \<Rightarrow> nat \<Rightarrow> pos list \<Rightarrow> bfs \<Rightarrow> bool" where
  "expanding m src player b u rest i new c \<longleftrightarrow>
     treeInv m src player c \<and>
     queue c = rest @ new \<and>
     (\<forall>w\<in>set new. (u, w) \<in> edges m \<and> \<not> visited b w) \<and>
     (\<forall>v. visited c v \<longleftrightarrow> visited b v \<or> v \<in> set new) \<and>
     (\<not> found c \<longrightarrow> player \<notin> set new) \<and>
     (\<not> found c \<longrightarrow> (\<forall>j<i. enterable m (neighbour u j) \<longrightarrow> visited c (neighbour u j)))"

definition catPos :: "session \<Rightarrow> pos" where
  "catPos s = (catX s, catY s)"

definition playerPos :: "session \<Rightarrow> pos" where
  "playerPos s = (playerX s, playerY s)"

definition catTo :: "pos \<Rightarrow> session \<Rightarrow> session" where
  "catTo r s = s\<lparr>catX := fst r, catY := snd r\<rparr>"

text \<open>
  Adjacency as the maze is meant to be read: from a tile of the grid one step up, down,
  left or right, or through the tunnel between the two ends of the tunnel row, onto a
  \<open>TILE_PATH\<close> tile of the grid.  On the grid this is the edge relation of the search.
\<close>

definition adjacent :: "grid \<Rightarrow> pos \<Rightarrow> pos \<Rightarrow> bool" where
  "adjacent m u w \<longleftrightarrow>
     inGrid u \<and> inGrid w \<and> tileAt m (fst w) (snd w) = TILE_PATH \<and>
     ((fst w = fst u \<and> (snd w = snd u - 1 \<or> snd w = snd u + 1))
      \<or> (snd w = snd u \<and> (fst w = fst u - 1 \<or> fst w = fst u + 1))
      \<or> (snd u = TUNNEL_ROW_INDEX \<and> snd w = TUNNEL_ROW_INDEX
          \<and> ((fst u = 0 \<and> fst w = COLS - 1) \<or> (fst u = COLS - 1 \<and> fst w = 0))))"

definition steps :: "grid \<Rightarrow> (pos \<times> pos) set" where
  "steps m = {(u, w). adjacent m u w}"

text \<open>\<open>k\<close> consecutive calls of \<open>moveCat\<close>, nothing else happening in between.\<close>

fun chase :: "nat \<Rightarrow> session \<Rightarrow> halt + session" where
  "chase 0 s = Inr s"
| "chase (Suc k) s = (case moveCat s of Inl h \<Rightarrow> Inl h | Inr s' \<Rightarrow> chase k s')"

text \<open>
  A state of the first maze with the player two tiles above the cat.
\<close>

definition chaseStart :: session where
  "chaseStart =
     \<lparr>currentGameState = PLAYING, playerX = 11, playerY = 9, catX = 11, catY = 11,
      maze = layout1, currentLevel = 1, score = 3, totalScore = 0, initialCheeseCount = 12,
      cheeseLocations = [(2, 1), (3, 1), (5, 1), (6, 1), (7, 1), (8, 1), (9, 1), (10, 1), (12, 1)],
      powerupLocations = [],
      isCatSlowed = False, catSlowDurationTimer = 0,
      currentCatDelay = 250, normalCatDelayBeforeSlowdown = 250,
      lastTickTime = 0, timerActive = True, resetIdentifier = 1,
      rands = (\<lambda>i. 0), timers = []\<rparr>"

text \<open>A run of frames: \<open>idle\<close> called once for each clock reading, in order.\<close>

fun frames :: "int list \<Rightarrow> session \<Rightarrow> session" where
  "frames [] s = s"
| "frames (t # ts) s = frames ts (idle t s)"

definition expiredDelay :: "session \<Rightarrow> int" where
  "expiredDelay s =
     (if initialCheeseCount s > 0 then delayFor (progressOf s) else normalCatDelayBeforeSlowdown s)"

definition pausedSlowed :: session where
  "pausedSlowed =
     \<lparr>currentGameState = PAUSED, playerX = 1, playerY = 1, catX = 11, catY = 11,
      maze = layout1, currentLevel = 1, score = 3, totalScore = 0, initialCheeseCount = 12,
      cheeseLocations = [(2, 1), (3, 1), (5, 1), (6, 1), (7, 1), (8, 1), (9, 1), (10, 1), (12, 1)],
      powerupLocations = [],
      isCatSlowed = True, catSlowDurationTimer = 3000,
      currentCatDelay = 450, normalCatDelayBeforeSlowdown = 250,
      lastTickTime = 1000, timerActive = False, resetIdentifier = 1,
      rands = (\<lambda>i. 0), timers = []\<rparr>"

text \<open>
  The tile of a power-up, and what both loops of \<open>initLevelData\<close> demand of a tile before
  they place anything on it.
\<close>

definition pwPos :: "Powerup \<Rightarrow> pos" where
  "pwPos p = (pw_x p, pw_y p)"

definition placeable :: "grid \<Rightarrow> pos \<Rightarrow> bool" where
  "placeable m p \<longleftrightarrow> enterable m p \<and> \<not> startTile (fst p) (snd p)"

text \<open>The attempts the two loops of \<open>initLevelData\<close> have used when they end.\<close>

definition cheeseAttempts :: "session \<Rightarrow> int" where
  "cheeseAttempts s = fst (snd (placeCheeseLoop (maze s) 0 0 [] (rands s)))"

definition powerupAttempts :: "session \<Rightarrow> int" where
  "powerupAttempts s =
     (case placeCheeseLoop (maze s) 0 0 [] (rands s) of
        (placedCheese, attempts, cheese, rs) \<Rightarrow>
          fst (snd (placePowerupLoop (maze s) cheese 0 0 [] rs)))"

text \<open>
  Two sessions to populate: one in the first maze whose draws land on thirteen free tiles
  of its second row, one in a maze without any path tile.
\<close>

definition seedDraws :: "nat list" where
  "seedDraws = [2, 1, 3, 1, 5, 1, 6, 1, 7, 1, 8, 1, 9, 1, 10, 1, 11, 1, 12, 1, 13, 1, 14, 1, 15, 1]"

definition levelSeed :: session where
  "levelSeed = wallAhead\<lparr>rands := (\<lambda>i. seedDraws ! i)\<rparr>"

definition wallsOnly :: session where
  "wallsOnly = wallAhead\<lparr>maze := replicate 23 (replicate 23 TILE_WALL)\<rparr>"

text \<open>A session after the last level was won, and one after the cat caught the player.\<close>

definition finalWon :: session where
  "finalWon = wallAhead\<lparr>currentGameState := GAME_WON_FINAL, currentLevel := 4, score := 0,
     totalScore := 36, cheeseLocations := [], timerActive := False\<rparr>"

definition gameOver :: session where
  "gameOver = wallAhead\<lparr>currentGameState := GAME_OVER, currentLevel := 2, score := 0,
     totalScore := 17, timerActive := False\<rparr>"

text \<open>
  What GLUT can call: a key, a special key, a frame, and the three timer callbacks, each
  with the arguments it is called with (and the clock reading where the callback takes
  one).  \<open>run\<close> lets a list of such events happen in order, and stops with the first that
  does not return.
\<close>

datatype event =
  KeyPress int char
  | SpecialPress int
  | Frame int
  | CatTick int
  | LevelTimer int int
  | IntroTimer

fun fire :: "event \<Rightarrow> session \<Rightarrow> halt + session" where
  "fire (KeyPress now key) s = keyboard now key s"
| "fire (SpecialPress key) s = Inr (specialKeyboard key s)"
| "fire (Frame now) s = Inr (idle now s)"
| "fire (CatTick val) s = catTimer val s"
| "fire (LevelTimer now v) s = nextLevelLambda now v s"
| "fire IntroTimer s = Inr (introLambda s)"

fun run :: "event list \<Rightarrow> session \<Rightarrow> halt + session" where
  "run [] s = Inr s"
| "run (e # es) s = (case fire e s of Inl h \<Rightarrow> Inl h | Inr s' \<Rightarrow> run es s')"



text \<open>
  The sessions the game can be in: the one \<open>main\<close> sets up, any freshly initialised
  level, and from there whatever player moves, cat steps and callbacks lead to.
\<close>

inductive_set reachable :: "session set" where
  at_start: "main rs now \<in> reachable"
| new_level: "initLevelData (initMaze level s) \<in> reachable"
| player_move: "s \<in> reachable \<Longrightarrow> processPlayerMove nextX nextY s \<in> reachable"
| cat_step: "s \<in> reachable \<Longrightarrow> moveCat s = Inr s' \<Longrightarrow> s' \<in> reachable"
| callback: "s \<in> reachable \<Longrightarrow> fire e s = Inr s' \<Longrightarrow> s' \<in> reachable"

definition onPath :: "session \<Rightarrow> bool" where
  "onPath s \<longleftrightarrow> enterable (maze s) (playerPos s) \<and> enterable (maze s) (catPos s)"

text \<open>The first level as \<open>initLevelData\<close> leaves it, before anything moves.\<close>

definition firstLevel :: session where
  "firstLevel = initLevelData (initMaze 1 wallAhead)"

text \<open>The player at the left end of the tunnel row of the first maze.\<close>

definition tunnelLeft :: session where
  "tunnelLeft = wallAhead\<lparr>playerX := 0, playerY := 11\<rparr>"

text \<open>
  The collected fraction that the speed curve is applied to: the score over the number of
  cheese placed for the level, and 0 when none was placed (the source guards both of its
  divisions with \<open>initialCheeseCount > 0\<close>).
\<close>

definition collectedFraction :: "session \<Rightarrow> real" where
  "collectedFraction s = (if initialCheeseCount s > 0 then progressOf s else 0)"

text \<open>
  What every session of the game keeps true of the score, the power-ups and the slow
  effect: the score is not negative; a level without cheese keeps the initial delay, as
  the saved one and, while no effect is active, as the current one; at most one power-up
  is left, and none while the effect is active, which then has time left.
\<close>

definition tidy :: "session \<Rightarrow> bool" where
  "tidy s \<longleftrightarrow> 0 \<le> score s
     \<and> (initialCheeseCount s \<le> 0 \<longrightarrow>
          normalCatDelayBeforeSlowdown s = INITIAL_CAT_DELAY_MS
          \<and> (\<not> isCatSlowed s \<longrightarrow> currentCatDelay s = INITIAL_CAT_DELAY_MS))
     \<and> length (powerupLocations s) \<le> 1
     \<and> (isCatSlowed s \<longrightarrow> powerupLocations s = [] \<and> 0 < catSlowDurationTimer s)"

text \<open>
  The delay is on the speed curve: in play, that is in state \<open>PLAYING\<close> or \<open>PAUSED\<close>, with
  no effect active, it is the curve's value at the collected fraction.
\<close>

definition onCurve :: "session \<Rightarrow> bool" where
  "onCurve s \<longleftrightarrow>
     ((currentGameState s = PLAYING \<or> currentGameState s = PAUSED) \<and> \<not> isCatSlowed s
        \<longrightarrow> currentCatDelay s = delayFor (collectedFraction s))"

text \<open>
  A session past the intro and the start menu, and the events that neither pause nor
  restart the level: every key but the pause and reset keys, the special keys, frames, cat
  ticks and the intro timer.
\<close>

definition started :: "session \<Rightarrow> bool" where
  "started s \<longleftrightarrow> currentGameState s \<noteq> INTRO \<and> currentGameState s \<noteq> START_MENU"

fun inPlay :: "event \<Rightarrow> bool" where
  "inPlay (KeyPress now key) \<longleftrightarrow> \<not> isKey key CHR ''p'' CHR ''P'' \<and> \<not> isKey key CHR ''r'' CHR ''R''"
| "inPlay (LevelTimer now v) \<longleftrightarrow> False"
| "inPlay e \<longleftrightarrow> True"

text \<open>
  A first level whose draws, the same twenty-six over and over, put three pieces of cheese
  and the power-up next to the player's start; the session after the player has stepped
  onto the power-up, with the effect active and nothing collected; and the session after
  the player has gone on to the three pieces: the effect is active, three of twelve
  pieces are collected, and the delay saved when the effect began is still the initial
  one.
\<close>

definition slowDraws :: "nat list" where
  "slowDraws = [1, 3, 2, 3, 3, 3, 5, 1, 6, 1, 7, 1, 8, 1, 9, 1, 10, 1, 11, 1, 12, 1, 13, 1, 1, 2]"

definition slowSeed :: session where
  "slowSeed = wallAhead\<lparr>rands := (\<lambda>i. slowDraws ! (i mod 26))\<rparr>"

definition slowedFresh :: session where
  "slowedFresh =
     \<lparr>currentGameState = PLAYING, playerX = 1, playerY = 2, catX = 11, catY = 11,
      maze = layout1, currentLevel = 1, score = 0, totalScore = 0, initialCheeseCount = 12,
      cheeseLocations = [(1, 3), (2, 3), (3, 3), (5, 1), (6, 1), (7, 1), (8, 1), (9, 1), (10, 1),
        (11, 1), (12, 1), (13, 1)],
      powerupLocations = [],
      isCatSlowed = True, catSlowDurationTimer = 5000,
      currentCatDelay = 450, normalCatDelayBeforeSlowdown = 350,
      lastTickTime = 0, timerActive = True, resetIdentifier = 1,
      rands = (\<lambda>i. slowDraws ! (i mod 26)), timers = []\<rparr>"

definition slowedPlay :: session where
  "slowedPlay =
     \<lparr>currentGameState = PLAYING, playerX = 3, playerY = 3, catX = 11, catY = 11,
      maze = layout1, currentLevel = 1, score = 3, totalScore = 0, initialCheeseCount = 12,
      cheeseLocations = [(5, 1), (6, 1), (7, 1), (8, 1), (9, 1), (10, 1), (11, 1), (12, 1), (13, 1)],
      powerupLocations = [],
      isCatSlowed = True, catSlowDurationTimer = 5000,
      currentCatDelay = 450, normalCatDelayBeforeSlowdown = 350,
      lastTickTime = 0, timerActive = True, resetIdentifier = 1,
      rands = (\<lambda>i. slowDraws ! (i mod 26)), timers = []\<rparr>"

section \<open>Player moves: what a move does\<close>

lemma neighbour_tunnelWrap:
  "neighbour c i = (tunnelWrap (fst c + dx ! i) (snd c + dy ! i), snd c + dy ! i)"
  by (simp add: neighbour_def tunnelWrap_def Let_def)

lemma processPlayerMove_eq:
  "processPlayerMove nextX nextY s =
     (if enterable (maze s) (tunnelWrap nextX nextY, nextY)
      then enterTile (tunnelWrap nextX nextY) nextY s else s)"
proof -
  define nx where "nx = tunnelWrap nextX nextY"
  have "processPlayerMove nextX nextY s =
     (if nx \<ge> 0 \<and> nx < COLS \<and> nextY \<ge> 0 \<and> nextY < ROWS \<and> tileAt (maze s) nx nextY = TILE_PATH
      then enterTile nx nextY s else s)"
    unfolding processPlayerMove_def enterTile_def Let_def nx_def tunnelWrap_def ..
  then show ?thesis
    unfolding nx_def by (simp add: enterable_def inGrid_def)
qed

text \<open>
  C8.  A move whose candidate tile, after the tunnel rule, is off the grid or not a
  \<open>TILE_PATH\<close> tile leaves the whole session as it was: player position, score and every
  other field.
\<close>

theorem rejected_move_changes_nothing:
  "\<not> enterable (maze s) (tunnelWrap nextX nextY, nextY) \<Longrightarrow> processPlayerMove nextX nextY s = s"
  by (simp add: processPlayerMove_eq)

theorem rejected_move_changes_nothing_witness:
  "\<not> enterable (maze wallAhead) (tunnelWrap 1 0, 0) \<and> processPlayerMove 1 0 wallAhead = wallAhead"
proof -
  have "\<not> enterable (maze wallAhead) (tunnelWrap 1 0, 0)"
    by (simp add: wallAhead_def enterable_def tunnelWrap_def inGrid_def tileAt_def layout1_def config)
  then show ?thesis
    using rejected_move_changes_nothing [of wallAhead 1 0] by simp
qed

section \<open>The search finds shortest paths\<close>

subsection \<open>Walks and distances in a directed graph\<close>

inductive_cases walkOn_0E: "walkOn E u 0 v"
inductive_cases walkOn_SucE: "walkOn E u (Suc n) v"

lemma walkOn_prepend: "walkOn E v n w \<Longrightarrow> (u, v) \<in> E \<Longrightarrow> walkOn E u (Suc n) w"
proof (induction rule: walkOn.induct)
  case walk_stay
  then show ?case
    by (blast intro: walkOn.intros)
next
  case (walk_step n x y)
  then show ?case
    by (blast intro: walkOn.intros)
qed

lemma distOn_le: "walkOn E u n v \<Longrightarrow> distOn E u v \<le> n"
  unfolding distOn_def by (rule Least_le)

lemma walkOn_distOn: "walkOn E u n v \<Longrightarrow> walkOn E u (distOn E u v) v"
  unfolding distOn_def by (rule LeastI)

lemma distOn_self [simp]: "distOn E u u = 0"
  using distOn_le [OF walkOn.walk_stay, of E u] by simp

lemma distOn_0D: "walkOn E u n v \<Longrightarrow> distOn E u v = 0 \<Longrightarrow> v = u"
  using walkOn_distOn [of E u n v] by (auto elim: walkOn_0E)

lemma distOn_step: "walkOn E u n v \<Longrightarrow> (v, w) \<in> E \<Longrightarrow> distOn E u w \<le> Suc (distOn E u v)"
  by (blast intro: distOn_le walkOn.walk_step walkOn_distOn)

lemma distOn_pred:
  assumes "walkOn E u n w" "w \<noteq> u"
  shows "\<exists>z k. walkOn E u k z \<and> (z, w) \<in> E \<and> distOn E u w = Suc (distOn E u z)"
proof -
  have w: "walkOn E u (distOn E u w) w"
    using assms(1) by (rule walkOn_distOn)
  have "distOn E u w \<noteq> 0"
    using assms distOn_0D by metis
  then obtain k where k: "distOn E u w = Suc k"
    by (auto simp: gr0_conv_Suc)
  with w obtain z where z: "walkOn E u k z" "(z, w) \<in> E"
    by (auto elim: walkOn_SucE)
  have "distOn E u z \<le> k"
    using z(1) by (rule distOn_le)
  moreover have "distOn E u w \<le> Suc (distOn E u z)"
    using z by (rule distOn_step)
  ultimately have "distOn E u w = Suc (distOn E u z)"
    using k by simp
  with z show ?thesis by blast
qed

lemma walkOn_transfer:
  assumes "walkOn E u n v" "P u" "\<And>a b. P a \<Longrightarrow> (a, b) \<in> E \<Longrightarrow> (a, b) \<in> E' \<and> P b"
  shows "walkOn E' u n v \<and> P v"
  using assms
proof (induction rule: walkOn.induct)
  case walk_stay
  then show ?case by (simp add: walkOn.walk_stay)
next
  case (walk_step n v w)
  then show ?case by (blast intro: walkOn.walk_step)
qed


subsection \<open>The graph the search explores, and its invariants\<close>

lemma reaches_step: "reaches m src u \<Longrightarrow> (u, w) \<in> edges m \<Longrightarrow> reaches m src w"
  unfolding reaches_def by (blast intro: walkOn.walk_step)

lemma reaches_self: "reaches m src src"
  unfolding reaches_def by (blast intro: walkOn.walk_stay)

lemma edgesI: "i < 4 \<Longrightarrow> enterable m (neighbour u i) \<Longrightarrow> (u, neighbour u i) \<in> edges m"
  unfolding edges_def by blast

lemma dst_step: "reaches m src u \<Longrightarrow> (u, w) \<in> edges m \<Longrightarrow> dst m src w \<le> Suc (dst m src u)"
  unfolding reaches_def by (blast intro: distOn_step)

lemma treeInvI:
  assumes "visited b src"
    and "\<And>v. visited b v \<Longrightarrow> reaches m src v"
    and "\<And>v. visited b v \<Longrightarrow> v \<noteq> src \<Longrightarrow>
        visited b (parent b v) \<and> (parent b v, v) \<in> edges m
        \<and> dst m src v = Suc (dst m src (parent b v))"
    and "found b \<Longrightarrow> target b = player \<and> visited b player"
  shows "treeInv m src player b"
  unfolding treeInv_def using assms by blast

lemma treeInv_src: "treeInv m src player b \<Longrightarrow> visited b src"
  unfolding treeInv_def by blast

lemma treeInv_reaches: "treeInv m src player b \<Longrightarrow> visited b v \<Longrightarrow> reaches m src v"
  unfolding treeInv_def by blast

lemma treeInv_parent:
  "treeInv m src player b \<Longrightarrow> visited b v \<Longrightarrow> v \<noteq> src \<Longrightarrow>
     visited b (parent b v) \<and> (parent b v, v) \<in> edges m
     \<and> dst m src v = Suc (dst m src (parent b v))"
  unfolding treeInv_def by blast

lemma treeInv_found: "treeInv m src player b \<Longrightarrow> found b \<Longrightarrow> target b = player \<and> visited b player"
  unfolding treeInv_def by blast

lemma levelInvI:
  assumes "\<And>v. v \<in> set (queue b) \<Longrightarrow> visited b v"
    and "sorted (map (dst m src) (queue b))"
    and "\<And>v. v \<in> set (queue b) \<Longrightarrow> dst m src v \<le> Suc (dst m src (hd (queue b)))"
    and "\<And>v w. visited b v \<Longrightarrow> v \<notin> set (queue b) \<Longrightarrow> (v, w) \<in> edges m \<Longrightarrow> visited b w"
    and "\<And>v. queue b \<noteq> [] \<Longrightarrow> reaches m src v \<Longrightarrow> dst m src v \<le> dst m src (hd (queue b))
           \<Longrightarrow> visited b v"
    and "\<And>v. queue b \<noteq> [] \<Longrightarrow> visited b v \<Longrightarrow> v \<notin> set (queue b)
           \<Longrightarrow> dst m src v \<le> dst m src (hd (queue b))"
    and "visited b player \<Longrightarrow> queue b = [src] \<and> src = player"
  shows "levelInv m src player b"
  unfolding levelInv_def
  apply (intro conjI ballI allI impI)
  using assms(1) apply blast
  using assms(2) apply blast
  using assms(3) apply blast
  using assms(4) apply blast
  using assms(5) apply blast
  using assms(6) apply blast
  using assms(7) apply blast
  using assms(7) apply blast
  done

lemma levelInv_queue: "levelInv m src player b \<Longrightarrow> v \<in> set (queue b) \<Longrightarrow> visited b v"
  unfolding levelInv_def by (elim conjE) (erule bspec)

lemma levelInv_sorted: "levelInv m src player b \<Longrightarrow> sorted (map (dst m src) (queue b))"
  unfolding levelInv_def by (elim conjE)

lemma levelInv_span:
  "levelInv m src player b \<Longrightarrow> v \<in> set (queue b) \<Longrightarrow> dst m src v \<le> Suc (dst m src (hd (queue b)))"
  unfolding levelInv_def by (elim conjE) (erule bspec)

lemma levelInv_closed:
  "levelInv m src player b \<Longrightarrow> visited b v \<Longrightarrow> v \<notin> set (queue b) \<Longrightarrow> (v, w) \<in> edges m
     \<Longrightarrow> visited b w"
  unfolding levelInv_def by (elim conjE) metis

lemma levelInv_near:
  "levelInv m src player b \<Longrightarrow> queue b \<noteq> [] \<Longrightarrow> reaches m src v
     \<Longrightarrow> dst m src v \<le> dst m src (hd (queue b)) \<Longrightarrow> visited b v"
  unfolding levelInv_def by (elim conjE) metis

lemma levelInv_done:
  "levelInv m src player b \<Longrightarrow> queue b \<noteq> [] \<Longrightarrow> visited b v \<Longrightarrow> v \<notin> set (queue b)
     \<Longrightarrow> dst m src v \<le> dst m src (hd (queue b))"
  unfolding levelInv_def by (elim conjE) metis

lemma levelInv_player:
  "levelInv m src player b \<Longrightarrow> visited b player \<Longrightarrow> queue b = [src] \<and> src = player"
  unfolding levelInv_def by (elim conjE) metis

lemma fresh_dist:
  assumes lev: "levelInv m src player b" and q: "queue b = u # rest"
    and u: "reaches m src u" and e: "(u, w) \<in> edges m" and w: "\<not> visited b w"
  shows "dst m src w = Suc (dst m src u)"
proof -
  have le: "dst m src w \<le> Suc (dst m src u)"
    using u e by (rule dst_step)
  have rw: "reaches m src w"
    using u e by (rule reaches_step)
  have "\<not> dst m src w \<le> dst m src u"
  proof
    assume "dst m src w \<le> dst m src u"
    with levelInv_near [OF lev _ rw] q have "visited b w"
      by simp
    with w show False ..
  qed
  with le show ?thesis by simp
qed

lemma treeInv_queue [simp]: "treeInv m src player (b\<lparr>queue := q\<rparr>) = treeInv m src player b"
  by (simp add: treeInv_def)

lemma markVisited_simps [simp]:
  "queue (markVisited u p c) = queue c @ [p]"
  "visited (markVisited u p c) v \<longleftrightarrow> v = p \<or> visited c v"
  "parent (markVisited u p c) v = (if v = p then u else parent c v)"
  "found (markVisited u p c) = found c"
  "target (markVisited u p c) = target c"
  by (auto simp: markVisited_def)

lemma treeInv_markVisited:
  assumes t: "treeInv m src player c" and nf: "\<not> found c"
    and u: "visited c u" and e: "(u, p) \<in> edges m" and p: "\<not> visited c p"
    and d: "dst m src p = Suc (dst m src u)"
  shows "treeInv m src player (markVisited u p c)"
proof (rule treeInvI)
  let ?c = "markVisited u p c"
  have rp: "reaches m src p"
    using treeInv_reaches [OF t u] e by (rule reaches_step)
  show "visited ?c src"
    using treeInv_src [OF t] by simp
  show "reaches m src v" if "visited ?c v" for v
    using that treeInv_reaches [OF t, of v] rp by (cases "v = p") simp_all
  show "visited ?c (parent ?c v) \<and> (parent ?c v, v) \<in> edges m
        \<and> dst m src v = Suc (dst m src (parent ?c v))" if "visited ?c v" "v \<noteq> src" for v
  proof (cases "v = p")
    case True
    then show ?thesis
      using u e d by simp
  next
    case False
    with that have "visited c v" by simp
    from treeInv_parent [OF t this that(2)] False show ?thesis
      by simp
  qed
  show "target ?c = player \<and> visited ?c player" if "found ?c"
    using that nf by simp
qed

lemma treeInv_found_update:
  assumes "treeInv m src player c" "visited c player"
  shows "treeInv m src player (c\<lparr>target := player, found := True\<rparr>)"
proof (rule treeInvI)
  let ?c = "c\<lparr>target := player, found := True\<rparr>"
  show "visited ?c src"
    using treeInv_src [OF assms(1)] by simp
  show "reaches m src v" if "visited ?c v" for v
    using that treeInv_reaches [OF assms(1), of v] by simp
  show "visited ?c (parent ?c v) \<and> (parent ?c v, v) \<in> edges m
        \<and> dst m src v = Suc (dst m src (parent ?c v))" if "visited ?c v" "v \<noteq> src" for v
    using that treeInv_parent [OF assms(1), of v] by simp
  show "target ?c = player \<and> visited ?c player"
    using assms(2) by simp
qed

lemma expandingI:
  assumes "treeInv m src player c" "queue c = rest @ new"
    and "\<And>w. w \<in> set new \<Longrightarrow> (u, w) \<in> edges m \<and> \<not> visited b w"
    and "\<And>v. visited c v \<longleftrightarrow> visited b v \<or> v \<in> set new"
    and "\<not> found c \<Longrightarrow> player \<notin> set new"
    and "\<And>j. \<not> found c \<Longrightarrow> j < i \<Longrightarrow> enterable m (neighbour u j) \<Longrightarrow> visited c (neighbour u j)"
  shows "expanding m src player b u rest i new c"
  unfolding expanding_def
  apply (intro conjI ballI allI impI)
  using assms(1) apply blast
  using assms(2) apply blast
  using assms(3) apply blast
  using assms(3) apply blast
  using assms(4) apply blast
  using assms(5) apply blast
  using assms(6) apply blast
  done

lemma expanding_tree: "expanding m src player b u rest i new c \<Longrightarrow> treeInv m src player c"
  unfolding expanding_def by (elim conjE)

lemma expanding_queue: "expanding m src player b u rest i new c \<Longrightarrow> queue c = rest @ new"
  unfolding expanding_def by (elim conjE)

lemma expanding_new:
  "expanding m src player b u rest i new c \<Longrightarrow> w \<in> set new \<Longrightarrow> (u, w) \<in> edges m \<and> \<not> visited b w"
  unfolding expanding_def by (elim conjE) (erule bspec)

lemma expanding_visited:
  "expanding m src player b u rest i new c \<Longrightarrow> visited c v \<longleftrightarrow> visited b v \<or> v \<in> set new"
  unfolding expanding_def by (elim conjE) (erule spec)

lemma expanding_player:
  "expanding m src player b u rest i new c \<Longrightarrow> \<not> found c \<Longrightarrow> player \<notin> set new"
  unfolding expanding_def by (elim conjE) (erule mp)

lemma expanding_dirs:
  "expanding m src player b u rest i new c \<Longrightarrow> \<not> found c \<Longrightarrow> j < i
     \<Longrightarrow> enterable m (neighbour u j) \<Longrightarrow> visited c (neighbour u j)"
  unfolding expanding_def by (elim conjE) metis

lemma expanding_start:
  assumes "treeInv m src player b"
  shows "expanding m src player b u rest 0 [] (b\<lparr>queue := rest\<rparr>)"
  by (rule expandingI) (use assms in simp_all)

lemma expanding_visit:
  assumes ex: "expanding m src player b u rest i new c" and i: "i < 4" and nf: "\<not> found c"
    and ub: "visited b u"
    and K: "\<And>w. (u, w) \<in> edges m \<Longrightarrow> \<not> visited b w \<Longrightarrow> dst m src w = Suc (dst m src u)"
  shows "\<exists>new'. expanding m src player b u rest (Suc i) new' (visitDirection m player u i c)"
proof -
  let ?p = "neighbour u i"
  note tr = expanding_tree [OF ex]
  note vis = expanding_visited [OF ex]
  note qc = expanding_queue [OF ex]
  have uc: "visited c u"
    using ub by (simp add: vis)
  have old: "visited c (neighbour u j)" if "j < i" "enterable m (neighbour u j)" for j
    using expanding_dirs [OF ex nf that] .
  show ?thesis
  proof (cases "enterable m ?p \<and> \<not> visited c ?p")
    case False
    then have r: "visitDirection m player u i c = c"
      by (auto simp: visitDirection_eq)
    have "expanding m src player b u rest (Suc i) new c"
    proof (rule expandingI)
      show "visited c (neighbour u j)" if "j < Suc i" "enterable m (neighbour u j)" for j
      proof (cases "j = i")
        case True
        with that False show ?thesis by blast
      next
        case False
        with that have "j < i" by simp
        then show ?thesis using that(2) by (rule old)
      qed
    qed (use tr qc vis expanding_new [OF ex] expanding_player [OF ex] in blast)+
    with r show ?thesis by auto
  next
    case True
    then have ent: "enterable m ?p" and pc: "\<not> visited c ?p" by simp_all
    have e: "(u, ?p) \<in> edges m"
      using i ent by (rule edgesI)
    have pb: "\<not> visited b ?p" and pn: "?p \<notin> set new"
      using pc by (simp_all add: vis)
    have d: "dst m src ?p = Suc (dst m src u)"
      using e pb by (rule K)
    let ?c = "markVisited u ?p c"
    have tm: "treeInv m src player ?c"
      using tr nf uc e pc d by (rule treeInv_markVisited)
    show ?thesis
    proof (cases "?p = player")
      case False
      then have r: "visitDirection m player u i c = ?c"
        using True by (simp add: visitDirection_eq)
      have "expanding m src player b u rest (Suc i) (new @ [?p]) ?c"
      proof (rule expandingI)
        show "treeInv m src player ?c" by (rule tm)
        show "queue ?c = rest @ new @ [?p]" by (simp add: qc)
        show "(u, w) \<in> edges m \<and> \<not> visited b w" if "w \<in> set (new @ [?p])" for w
          using that e pb expanding_new [OF ex, of w] by auto
        show "visited ?c v \<longleftrightarrow> visited b v \<or> v \<in> set (new @ [?p])" for v
          by (auto simp: vis)
        show "player \<notin> set (new @ [?p])"
          using False expanding_player [OF ex nf] by auto
        show "visited ?c (neighbour u j)" if "j < Suc i" "enterable m (neighbour u j)" for j
        proof (cases "j = i")
          case True
          then show ?thesis by simp
        next
          case False
          with that have "j < i" by simp
          then have "visited c (neighbour u j)" using that(2) by (rule old)
          then show ?thesis by simp
        qed
      qed
      with r show ?thesis by auto
    next
      case pl: True
      let ?r = "?c\<lparr>target := player, found := True\<rparr>"
      have r: "visitDirection m player u i c = ?r"
        using True pl by (simp add: visitDirection_eq)
      have "expanding m src player b u rest (Suc i) (new @ [?p]) ?r"
      proof (rule expandingI)
        show "treeInv m src player ?r"
          using tm by (rule treeInv_found_update) (simp add: pl)
        show "queue ?r = rest @ new @ [?p]" by (simp add: qc)
        show "(u, w) \<in> edges m \<and> \<not> visited b w" if "w \<in> set (new @ [?p])" for w
          using that e pb expanding_new [OF ex, of w] by auto
        show "visited ?r v \<longleftrightarrow> visited b v \<or> v \<in> set (new @ [?p])" for v
          by (auto simp: vis)
        show "player \<notin> set (new @ [?p])" if "\<not> found ?r"
          using that by simp
        show "visited ?r (neighbour u j)" if "\<not> found ?r" for j
          using that by simp
      qed
      with r show ?thesis by auto
    qed
  qed
qed

lemma expanding_loop:
  assumes "expanding m src player b u rest i new c" "i \<le> 4" "visited b u"
    and "\<And>w. (u, w) \<in> edges m \<Longrightarrow> \<not> visited b w \<Longrightarrow> dst m src w = Suc (dst m src u)"
  shows "\<exists>k new'. expanding m src player b u rest k new' (directionLoop m player u i c)
           \<and> (found (directionLoop m player u i c) \<or> k = 4)"
  using assms
proof (induction m player u i c arbitrary: new rule: directionLoop.induct)
  case (1 m player u i c)
  show ?case
  proof (cases "i < 4 \<and> \<not> found c")
    case True
    then have r: "directionLoop m player u i c
        = directionLoop m player u (i + 1) (visitDirection m player u i c)"
      by (subst directionLoop.simps) simp
    from True "1.prems" obtain new' where
      "expanding m src player b u rest (Suc i) new' (visitDirection m player u i c)"
      using expanding_visit [of m src player b u rest i new c] by blast
    then have "\<exists>k new'. expanding m src player b u rest k new'
                 (directionLoop m player u (i + 1) (visitDirection m player u i c))
           \<and> (found (directionLoop m player u (i + 1) (visitDirection m player u i c)) \<or> k = 4)"
      using True "1.prems"(3,4) by (intro "1.IH") simp_all
    with r show ?thesis by simp
  next
    case False
    then have r: "directionLoop m player u i c = c"
      by (subst directionLoop.simps) auto
    from False "1.prems"(2) have "found c \<or> i = 4" by auto
    with "1.prems"(1) r show ?thesis by auto
  qed
qed

lemma sorted_map_const: "(\<And>x. x \<in> set xs \<Longrightarrow> f x = (k::nat)) \<Longrightarrow> sorted (map f xs)"
  by (induction xs) auto

lemma sorted_map_hd: "sorted (map f xs) \<Longrightarrow> z \<in> set xs \<Longrightarrow> (f (hd xs) :: nat) \<le> f z"
  by (cases xs) auto

lemma level_after:
  assumes lev: "levelInv m src player b" and tr: "treeInv m src player b"
    and q: "queue b = u # rest" and up: "u \<noteq> player"
    and ex: "expanding m src player b u rest 4 new r" and nfr: "\<not> found r"
  shows "levelInv m src player r"
proof -
  let ?d = "dst m src"
  note vis = expanding_visited [OF ex]
  note qr = expanding_queue [OF ex]
  have ub: "visited b u"
    using levelInv_queue [OF lev, of u] q by simp
  have ru: "reaches m src u"
    using tr ub by (rule treeInv_reaches)
  have newE: "(u, w) \<in> edges m" and newV: "\<not> visited b w" and newD: "?d w = Suc (?d u)"
    if "w \<in> set new" for w
  proof -
    show e: "(u, w) \<in> edges m" and v: "\<not> visited b w"
      using expanding_new [OF ex that] by simp_all
    show "?d w = Suc (?d u)"
      using lev q ru e v by (rule fresh_dist)
  qed
  have sb: "sorted (map ?d (u # rest))"
    using levelInv_sorted [OF lev] q by simp
  have restL: "?d u \<le> ?d v" and restU: "?d v \<le> Suc (?d u)" if "v \<in> set rest" for v
  proof -
    show "?d u \<le> ?d v" using sb that by auto
    show "?d v \<le> Suc (?d u)" using levelInv_span [OF lev, of v] that q by simp
  qed
  have inq: "?d u \<le> ?d v \<and> ?d v \<le> Suc (?d u)" if "v \<in> set (rest @ new)" for v
    using that restL [of v] restU [of v] newD [of v] by auto
  have sr: "sorted (map ?d (rest @ new))"
  proof -
    have "sorted (map ?d rest)" using sb by simp
    moreover have "sorted (map ?d new)"
      using newD by (rule sorted_map_const)
    moreover have "?d x \<le> ?d y" if "x \<in> set rest" "y \<in> set new" for x y
      using restU [OF that(1)] newD [OF that(2)] by simp
    ultimately show ?thesis
      by (simp add: sorted_append)
  qed
  have hdq: "hd (rest @ new) \<in> set (rest @ new)" if "rest @ new \<noteq> []"
    using that by (rule hd_in_set)
  have uclosed: "visited r w" if "(u, w) \<in> edges m" for w
  proof -
    from that obtain j where "j < 4" "neighbour u j = w" "enterable m w"
      unfolding edges_def by blast
    with expanding_dirs [OF ex nfr, of j] show ?thesis by simp
  qed
  have pl: "\<not> visited r player"
  proof
    assume "visited r player"
    then have "visited b player"
      using expanding_player [OF ex nfr] by (simp add: vis)
    from levelInv_player [OF lev this] q up show False by simp
  qed
  have closed: "visited r w" if "visited r v" "v \<notin> set (rest @ new)" "(v, w) \<in> edges m" for v w
  proof (cases "v = u")
    case True
    with that(3) show ?thesis by (simp add: uclosed)
  next
    case False
    have vb: "visited b v" using that(1,2) by (simp add: vis)
    moreover have "v \<notin> set (queue b)" using that(2) False q by simp
    ultimately have "visited b w" using that(3) levelInv_closed [OF lev] by blast
    then show ?thesis by (simp add: vis)
  qed
  show ?thesis
  proof (rule levelInvI)
    show "visited r v" if "v \<in> set (queue r)" for v
      using that levelInv_queue [OF lev, of v] q by (auto simp: qr vis)
    show "sorted (map ?d (queue r))"
      using sr by (simp add: qr)
    show "?d v \<le> Suc (?d (hd (queue r)))" if "v \<in> set (queue r)" for v
    proof -
      from that have ne: "rest @ new \<noteq> []" and v: "v \<in> set (rest @ new)"
        by (auto simp: qr)
      from inq [OF hdq [OF ne]] inq [OF v] show ?thesis
        by (simp add: qr)
    qed
    show "visited r w" if "visited r v" "v \<notin> set (queue r)" "(v, w) \<in> edges m" for v w
      using that closed by (simp add: qr)
    show "visited r v" if ne: "queue r \<noteq> []" and rv: "reaches m src v"
      and le: "?d v \<le> ?d (hd (queue r))" for v
    proof (cases "?d v \<le> ?d u")
      case True
      with levelInv_near [OF lev _ rv] q have "visited b v" by simp
      then show ?thesis by (simp add: vis)
    next
      case False
      from ne have ne': "rest @ new \<noteq> []" by (simp add: qr)
      have hu: "?d (hd (rest @ new)) \<le> Suc (?d u)"
        using inq [OF hdq [OF ne']] by simp
      with le False have dv: "?d v = Suc (?d u)" and dh: "?d (hd (rest @ new)) = Suc (?d u)"
        by (simp_all add: qr)
      from rv obtain n where w: "walkOn (edges m) src n v"
        unfolding reaches_def by blast
      have "v \<noteq> src" using dv by auto
      from distOn_pred [OF w this] obtain z k where
        z: "walkOn (edges m) src k z" "(z, v) \<in> edges m" "?d v = Suc (?d z)"
        by blast
      have rz: "reaches m src z"
        using z(1) unfolding reaches_def by blast
      have dz: "?d z = ?d u" using z(3) dv by simp
      with levelInv_near [OF lev _ rz] q have "visited b z" by simp
      then have vz: "visited r z" by (simp add: vis)
      have "z \<notin> set (rest @ new)"
      proof
        assume "z \<in> set (rest @ new)"
        from sorted_map_hd [OF sr this] dh dz show False by simp
      qed
      with vz show ?thesis using z(2) by (rule closed)
    qed
    show "?d v \<le> ?d (hd (queue r))" if ne: "queue r \<noteq> []" and vv: "visited r v"
      and nq: "v \<notin> set (queue r)" for v
    proof -
      from ne have ne': "rest @ new \<noteq> []" by (simp add: qr)
      have hu: "?d u \<le> ?d (hd (rest @ new))"
        using inq [OF hdq [OF ne']] by simp
      have vb: "visited b v" using vv nq by (simp add: vis qr)
      show ?thesis
      proof (cases "v = u")
        case True
        with hu show ?thesis by (simp add: qr)
      next
        case False
        with nq have "v \<notin> set (queue b)" by (simp add: q qr)
        with levelInv_done [OF lev _ vb] q have "?d v \<le> ?d u" by simp
        with hu show ?thesis by (simp add: qr)
      qed
    qed
    show "queue r = [src] \<and> src = player" if "visited r player"
      using that pl by simp
  qed
qed

lemma treeInv_init: "treeInv m src player (bfsInit src)"
proof (rule treeInvI)
  show "reaches m src v" if "visited (bfsInit src) v" for v
    using that reaches_self [of m src] by (cases "v = src") (simp_all add: bfsInit_def)
qed (simp_all add: bfsInit_def)

lemma levelInv_init: "levelInv m src player (bfsInit src)"
proof (rule levelInvI)
  show "visited (bfsInit src) v" if "queue (bfsInit src) \<noteq> []" "reaches m src v"
      "dst m src v \<le> dst m src (hd (queue (bfsInit src)))" for v
  proof -
    from that(2) obtain n where "walkOn (edges m) src n v"
      unfolding reaches_def by blast
    moreover from that(3) have "dst m src v = 0"
      by (simp add: bfsInit_def)
    ultimately have "v = src" by (rule distOn_0D)
    then show ?thesis by (simp add: bfsInit_def)
  qed
  show "queue (bfsInit src) = [src] \<and> src = player" if "visited (bfsInit src) player"
    using that by (cases "player = src") (simp_all add: bfsInit_def)
  show "visited (bfsInit src) w"
    if "visited (bfsInit src) v" "v \<notin> set (queue (bfsInit src))" for v w
    using that by (cases "v = src") (simp_all add: bfsInit_def)
  show "dst m src v \<le> dst m src (hd (queue (bfsInit src)))"
    if "visited (bfsInit src) v" "v \<notin> set (queue (bfsInit src))" for v
    using that by (cases "v = src") (simp_all add: bfsInit_def)
qed (simp_all add: bfsInit_def)

lemma bfsLoop_inv:
  assumes "treeInv m src player b" "\<not> found b \<Longrightarrow> levelInv m src player b"
  shows "treeInv m src player (bfsLoop m player b)
     \<and> (\<not> found (bfsLoop m player b) \<longrightarrow>
          queue (bfsLoop m player b) = [] \<and> levelInv m src player (bfsLoop m player b))"
  using assms
proof (induction m player b rule: bfsLoop.induct)
  case (1 m player b)
  show ?case
  proof (cases "queue b \<noteq> [] \<and> \<not> found b")
    case False
    then have "bfsLoop m player b = b"
      by (subst bfsLoop.simps) auto
    with False "1.prems" show ?thesis by auto
  next
    case True
    define u where "u = hd (queue b)"
    define rest where "rest = tl (queue b)"
    have q: "queue b = u # rest"
      using True by (simp add: u_def rest_def)
    have lev: "levelInv m src player b"
      using True "1.prems"(2) by simp
    have ub: "visited b u"
      using levelInv_queue [OF lev, of u] q by simp
    show ?thesis
    proof (cases "fst u = fst player \<and> snd u = snd player")
      case pl: True
      then have up: "u = player" by (simp add: prod_eq_iff)
      have r: "bfsLoop m player b = b\<lparr>queue := rest, target := player, found := True\<rparr>"
        using True pl up by (subst bfsLoop.simps) (simp add: Let_def u_def [symmetric] rest_def [symmetric])
      have "treeInv m src player (b\<lparr>queue := rest\<rparr>)"
        using "1.prems"(1) by simp
      then have "treeInv m src player (b\<lparr>queue := rest\<rparr>\<lparr>target := player, found := True\<rparr>)"
        by (rule treeInv_found_update) (use ub up in simp)
      with r show ?thesis by simp
    next
      case np: False
      then have up: "u \<noteq> player" by (auto simp: prod_eq_iff)
      let ?c = "directionLoop m player u 0 (b\<lparr>queue := rest\<rparr>)"
      have r: "bfsLoop m player b = bfsLoop m player ?c"
        using True np by (subst bfsLoop.simps) (auto simp: Let_def u_def [symmetric] rest_def [symmetric])
      have K: "dst m src w = Suc (dst m src u)" if "(u, w) \<in> edges m" "\<not> visited b w" for w
        using lev q treeInv_reaches [OF "1.prems"(1) ub] that by (rule fresh_dist)
      have "expanding m src player b u rest 0 [] (b\<lparr>queue := rest\<rparr>)"
        using "1.prems"(1) by (rule expanding_start)
      from expanding_loop [OF this _ ub K] obtain k new where
        ex: "expanding m src player b u rest k new ?c" and k: "found ?c \<or> k = 4"
        by auto
      have tc: "treeInv m src player ?c"
        using ex by (rule expanding_tree)
      have lc: "levelInv m src player ?c" if "\<not> found ?c"
      proof -
        from k that have "k = 4" by simp
        with ex have "expanding m src player b u rest 4 new ?c" by simp
        with lev "1.prems"(1) q up show ?thesis using that by (rule level_after)
      qed
      have "treeInv m src player (bfsLoop m player ?c)
         \<and> (\<not> found (bfsLoop m player ?c) \<longrightarrow>
          queue (bfsLoop m player ?c) = [] \<and> levelInv m src player (bfsLoop m player ?c))"
        using True np tc lc
        by (intro "1.IH" [where x = u and xa = "b\<lparr>queue := rest\<rparr>"]) (simp_all add: u_def rest_def)
      with r show ?thesis by simp
    qed
  qed
qed

lemma closed_reaches_visited:
  assumes "walkOn (edges m) src n v" "visited b src"
    and "\<And>x y. visited b x \<Longrightarrow> (x, y) \<in> edges m \<Longrightarrow> visited b y"
  shows "visited b v"
  using assms by (induction rule: walkOn.induct) blast+

lemma bfs_found_iff:
  "found (bfsLoop m player (bfsInit src)) \<longleftrightarrow> reaches m src player"
proof -
  let ?r = "bfsLoop m player (bfsInit src)"
  have inv: "treeInv m src player ?r
     \<and> (\<not> found ?r \<longrightarrow> queue ?r = [] \<and> levelInv m src player ?r)"
    by (rule bfsLoop_inv) (rule treeInv_init levelInv_init)+
  show ?thesis
  proof
    assume "found ?r"
    with inv have "visited ?r player"
      using treeInv_found by blast
    with inv show "reaches m src player"
      using treeInv_reaches by blast
  next
    assume rp: "reaches m src player"
    show "found ?r"
    proof (rule ccontr)
      assume nf: "\<not> found ?r"
      with inv have q: "queue ?r = []" and lev: "levelInv m src player ?r" and tr: "treeInv m src player ?r"
        by simp_all
      from rp obtain n where w: "walkOn (edges m) src n player"
        unfolding reaches_def by blast
      have "visited ?r player"
        using w treeInv_src [OF tr]
      proof (rule closed_reaches_visited)
        show "visited ?r y" if "visited ?r x" "(x, y) \<in> edges m" for x y
          using levelInv_closed [OF lev that(1) _ that(2)] q by simp
      qed
      from levelInv_player [OF lev this] q show False by simp
    qed
  qed
qed

lemma bfs_tree: "treeInv m src player (bfsLoop m player (bfsInit src))"
  by (rule bfsLoop_inv [THEN conjunct1]) (rule treeInv_init levelInv_init)+

subsection \<open>Walking the parents back\<close>

lemma not_enterable_sentinel: "\<not> enterable m (-1, -1)"
  by (simp add: enterable_def inGrid_def)

lemma edges_enterable: "(u, w) \<in> edges m \<Longrightarrow> enterable m w"
  unfolding edges_def by blast

lemma backtrack_tree:
  assumes tr: "treeInv m src player b" and v: "visited b v"
  shows "\<exists>r. backtrack (parent b) src v = Some r
           \<and> ((r = (-1, -1) \<and> (v = src \<or> src = (-1, -1)))
              \<or> ((src, r) \<in> edges m \<and> walkOn (edges m) r (dst m src v - 1) v))"
  using v
proof (induction "dst m src v" arbitrary: v rule: less_induct)
  case less
  show ?case
  proof (cases "v = src")
    case True
    then show ?thesis
      by (subst backtrack.simps) simp
  next
    case False
    let ?p = "parent b v"
    from treeInv_parent [OF tr less.prems False]
    have pv: "visited b ?p" and pe: "(?p, v) \<in> edges m" and d: "dst m src v = Suc (dst m src ?p)"
      by simp_all
    show ?thesis
    proof (cases "?p = src")
      case True
      show ?thesis
      proof (cases "src = (-1, -1)")
        case s: True
        with True False show ?thesis
          by (subst backtrack.simps) (simp add: Let_def)
      next
        case s: False
        have "walkOn (edges m) v 0 v" by (rule walkOn.walk_stay)
        moreover have "dst m src v - 1 = 0" using d True by simp
        ultimately show ?thesis
          using True False s pe by (subst backtrack.simps) (simp add: Let_def)
      qed
    next
      case ps: False
      from treeInv_parent [OF tr pv ps] have "enterable m ?p"
        using edges_enterable by blast
      then have p1: "?p \<noteq> (-1, -1)"
        using not_enterable_sentinel by metis
      have r: "backtrack (parent b) src v = backtrack (parent b) src ?p"
        using False ps p1 by (subst backtrack.simps) (simp add: Let_def)
      have "dst m src ?p < dst m src v" using d by simp
      from less.hyps [OF this pv] obtain r where
        b: "backtrack (parent b) src ?p = Some r" and
        c: "(r = (-1, -1) \<and> (?p = src \<or> src = (-1, -1)))
              \<or> ((src, r) \<in> edges m \<and> walkOn (edges m) r (dst m src ?p - 1) ?p)"
        by blast
      from treeInv_reaches [OF tr pv] obtain n where "walkOn (edges m) src n ?p"
        unfolding reaches_def by blast
      then have "dst m src ?p \<noteq> 0"
        using distOn_0D ps by metis
      then have e: "Suc (dst m src ?p - 1) = dst m src v - 1"
        using d by simp
      from c show ?thesis
      proof
        assume "r = (-1, -1) \<and> (?p = src \<or> src = (-1, -1))"
        with ps r b show ?thesis by simp
      next
        assume a: "(src, r) \<in> edges m \<and> walkOn (edges m) r (dst m src ?p - 1) ?p"
        then have "walkOn (edges m) r (Suc (dst m src ?p - 1)) v"
          using pe by (blast intro: walkOn.walk_step)
        with e a r b show ?thesis by simp
      qed
    qed
  qed
qed

subsection \<open>What one call of \<open>moveCat\<close> does\<close>

lemma moveCat_eq:
  "moveCat s =
     (if \<not> found (bfsLoop (maze s) (playerPos s) (bfsInit (catPos s))) then Inr s
      else case backtrack (parent (bfsLoop (maze s) (playerPos s) (bfsInit (catPos s))))
                  (catPos s) (target (bfsLoop (maze s) (playerPos s) (bfsInit (catPos s)))) of
             None \<Rightarrow> Inl Diverged
           | Some nextStep \<Rightarrow> Inr (caught (if fst nextStep \<noteq> -1 then catTo nextStep s else s)))"
  unfolding moveCat_def catPos_def playerPos_def catTo_def Let_def ..

lemma moveCat_unreachable:
  "\<not> reaches (maze s) (catPos s) (playerPos s) \<Longrightarrow> moveCat s = Inr s"
  by (simp add: moveCat_eq bfs_found_iff)

lemma moveCat_cases:
  assumes "reaches (maze s) (catPos s) (playerPos s)"
  shows "(moveCat s = Inr (caught s) \<and> (catPos s = playerPos s \<or> catPos s = (-1, -1)))
       \<or> (\<exists>r. moveCat s = Inr (caught (catTo r s)) \<and> (catPos s, r) \<in> edges (maze s)
              \<and> walkOn (edges (maze s)) r (dst (maze s) (catPos s) (playerPos s) - 1) (playerPos s))"
proof -
  let ?b = "bfsLoop (maze s) (playerPos s) (bfsInit (catPos s))"
  have f: "found ?b"
    using assms by (simp add: bfs_found_iff)
  have tr: "treeInv (maze s) (catPos s) (playerPos s) ?b"
    by (rule bfs_tree)
  from treeInv_found [OF tr f] have t: "target ?b = playerPos s" and v: "visited ?b (playerPos s)"
    by simp_all
  from backtrack_tree [OF tr v] obtain r where
    b: "backtrack (parent ?b) (catPos s) (playerPos s) = Some r" and
    c: "(r = (-1, -1) \<and> (playerPos s = catPos s \<or> catPos s = (-1, -1)))
        \<or> ((catPos s, r) \<in> edges (maze s)
            \<and> walkOn (edges (maze s)) r (dst (maze s) (catPos s) (playerPos s) - 1) (playerPos s))"
    by blast
  from c show ?thesis
  proof
    assume a: "r = (-1, -1) \<and> (playerPos s = catPos s \<or> catPos s = (-1, -1))"
    then have "moveCat s = Inr (caught s)"
      using f t b by (simp add: moveCat_eq)
    with a show ?thesis by auto
  next
    assume a: "(catPos s, r) \<in> edges (maze s)
            \<and> walkOn (edges (maze s)) r (dst (maze s) (catPos s) (playerPos s) - 1) (playerPos s)"
    then have "enterable (maze s) r" using edges_enterable by blast
    then have "fst r \<noteq> -1" by (auto simp: enterable_def inGrid_def)
    then have "moveCat s = Inr (caught (catTo r s))"
      using f t b by (simp add: moveCat_eq)
    with a show ?thesis by blast
  qed
qed


lemma moveCat_returns:
  "\<exists>s'. moveCat s = Inr s' \<and>
     (s' = s \<or> s' = caught s \<or> (\<exists>r. (catPos s, r) \<in> edges (maze s) \<and> s' = caught (catTo r s)))"
proof (cases "reaches (maze s) (catPos s) (playerPos s)")
  case True
  from moveCat_cases [OF this] show ?thesis by blast
next
  case False
  then show ?thesis by (simp add: moveCat_unreachable)
qed

section \<open>The cat closes in along a shortest path\<close>


lemma ex_less_4: "(\<exists>i<4. P i) \<longleftrightarrow> P 0 \<or> P 1 \<or> P 2 \<or> P (3::nat)"
proof
  assume "\<exists>i<4. P i"
  then obtain i where i: "i < 4" "P i" by blast
  then have "i = 0 \<or> i = 1 \<or> i = 2 \<or> i = 3" by arith
  with i(2) show "P 0 \<or> P 1 \<or> P 2 \<or> P 3" by blast
next
  assume "P 0 \<or> P 1 \<or> P 2 \<or> P 3"
  then consider "P 0" | "P 1" | "P 2" | "P 3" by blast
  then show "\<exists>i<4. P i"
  proof cases
    case 1 then show ?thesis by (intro exI [of _ 0]) simp
  next
    case 2 then show ?thesis by (intro exI [of _ 1]) simp
  next
    case 3 then show ?thesis by (intro exI [of _ 2]) simp
  next
    case 4 then show ?thesis by (intro exI [of _ 3]) simp
  qed
qed

lemma neighbour_inGrid:
  assumes "inGrid (x, y)"
  shows "neighbour (x, y) 0 = (x, y - 1)"
    and "neighbour (x, y) 1 = (x, y + 1)"
    and "neighbour (x, y) 2 = (if y = TUNNEL_ROW_INDEX \<and> x = 0 then COLS - 1 else x - 1, y)"
    and "neighbour (x, y) 3 = (if y = TUNNEL_ROW_INDEX \<and> x = COLS - 1 then 0 else x + 1, y)"
proof -
  have x: "0 \<le> x" "x < 23" using assms by (simp_all add: inGrid_def config)
  show "neighbour (x, y) 0 = (x, y - 1)"
    using x by (simp add: neighbour_def Let_def dx_def dy_def config)
  show "neighbour (x, y) 1 = (x, y + 1)"
    using x by (simp add: neighbour_def Let_def dx_def dy_def config)
  show "neighbour (x, y) 2 = (if y = TUNNEL_ROW_INDEX \<and> x = 0 then COLS - 1 else x - 1, y)"
    using x by (simp add: neighbour_def Let_def dx_def dy_def config)
  show "neighbour (x, y) 3 = (if y = TUNNEL_ROW_INDEX \<and> x = COLS - 1 then 0 else x + 1, y)"
    using x by (simp add: neighbour_def Let_def dx_def dy_def config)
qed

lemma adjacent_neighbour:
  assumes g: "inGrid (x, y)"
  shows "enterable m (a, b) \<and> (neighbour (x, y) 0 = (a, b) \<or> neighbour (x, y) 1 = (a, b)
        \<or> neighbour (x, y) 2 = (a, b) \<or> neighbour (x, y) 3 = (a, b))
      \<longleftrightarrow> adjacent m (x, y) (a, b)"
proof (cases "enterable m (a, b)")
  case False
  then have "\<not> adjacent m (x, y) (a, b)"
    unfolding adjacent_def enterable_def by auto
  with False show ?thesis by blast
next
  case True
  then have ab: "0 \<le> a" "a < 23" "0 \<le> b" "b < 23" and tile: "tileAt m a b = TILE_PATH"
    by (simp_all add: enterable_def inGrid_def config)
  from g have xy: "0 \<le> x" "x < 23" "0 \<le> y" "y < 23"
    by (simp_all add: inGrid_def config)
  have "adjacent m (x, y) (a, b) \<longleftrightarrow>
     ((a = x \<and> (b = y - 1 \<or> b = y + 1))
      \<or> (b = y \<and> (a = x - 1 \<or> a = x + 1))
      \<or> (y = 11 \<and> b = 11 \<and> ((x = 0 \<and> a = 22) \<or> (x = 22 \<and> a = 0))))"
    using True g by (simp add: adjacent_def enterable_def config)
  also have "\<dots> \<longleftrightarrow> ((x, y - 1) = (a, b) \<or> (x, y + 1) = (a, b)
        \<or> (if y = 11 \<and> x = 0 then 22 else x - 1, y) = (a, b)
        \<or> (if y = 11 \<and> x = 22 then 0 else x + 1, y) = (a, b))"
    using ab xy by (simp only: prod.inject) presburger
  finally show ?thesis
    using True unfolding neighbour_inGrid [OF g] by (simp add: config)
qed

lemma edges_iff_adjacent:
  assumes "inGrid u"
  shows "(u, w) \<in> edges m \<longleftrightarrow> adjacent m u w"
proof -
  obtain x y where u: "u = (x, y)" by (cases u)
  obtain a b where w: "w = (a, b)" by (cases w)
  have g: "inGrid (x, y)" using assms u by simp
  have "(u, w) \<in> edges m \<longleftrightarrow>
      enterable m (a, b) \<and> (neighbour (x, y) 0 = (a, b) \<or> neighbour (x, y) 1 = (a, b)
        \<or> neighbour (x, y) 2 = (a, b) \<or> neighbour (x, y) 3 = (a, b))"
    by (auto simp: edges_def u w ex_less_4)
  also have "\<dots> \<longleftrightarrow> adjacent m (x, y) (a, b)"
    using g by (rule adjacent_neighbour)
  finally show ?thesis by (simp add: u w)
qed

lemma adjacent_inGrid: "adjacent m u w \<Longrightarrow> inGrid w"
  by (simp add: adjacent_def)

lemma walk_edges_steps:
  assumes "inGrid src"
  shows "walkOn (edges m) src n v \<longleftrightarrow> walkOn (steps m) src n v"
proof
  assume "walkOn (edges m) src n v"
  then have "walkOn (steps m) src n v \<and> inGrid v"
    using assms
  proof (rule walkOn_transfer)
    show "(a, b) \<in> steps m \<and> inGrid b" if "inGrid a" "(a, b) \<in> edges m" for a b
      using that edges_iff_adjacent [of a b m] adjacent_inGrid [of m a b] by (simp add: steps_def)
  qed
  then show "walkOn (steps m) src n v" ..
next
  assume "walkOn (steps m) src n v"
  then have "walkOn (edges m) src n v \<and> inGrid v"
    using assms
  proof (rule walkOn_transfer)
    show "(a, b) \<in> edges m \<and> inGrid b" if "inGrid a" "(a, b) \<in> steps m" for a b
      using that edges_iff_adjacent [of a b m] adjacent_inGrid [of m a b] by (simp add: steps_def)
  qed
  then show "walkOn (edges m) src n v" ..
qed

lemma dist_edges_steps: "inGrid src \<Longrightarrow> distOn (edges m) src v = distOn (steps m) src v"
  by (simp add: distOn_def walk_edges_steps)

lemma caught_frame [simp]:
  "maze (caught s) = maze s" "playerPos (caught s) = playerPos s" "catPos (caught s) = catPos s"
  by (simp_all add: caught_def playerPos_def catPos_def)

lemma catTo_frame [simp]:
  "maze (catTo r s) = maze s" "playerPos (catTo r s) = playerPos s" "catPos (catTo r s) = r"
  by (simp_all add: catTo_def playerPos_def catPos_def)

lemma inGrid_not_sentinel: "inGrid p \<Longrightarrow> p \<noteq> (-1, -1)"
  by (auto simp: inGrid_def)

lemma moveCat_step:
  assumes r: "reaches (maze s) (catPos s) (playerPos s)" and ne: "catPos s \<noteq> playerPos s"
    and g: "inGrid (catPos s)"
  shows "\<exists>s'. moveCat s = Inr s' \<and> maze s' = maze s \<and> playerPos s' = playerPos s
           \<and> (catPos s, catPos s') \<in> edges (maze s)
           \<and> reaches (maze s) (catPos s') (playerPos s)
           \<and> Suc (dst (maze s) (catPos s') (playerPos s)) = dst (maze s) (catPos s) (playerPos s)"
proof -
  let ?m = "maze s" and ?c = "catPos s" and ?p = "playerPos s"
  from moveCat_cases [OF r] ne inGrid_not_sentinel [OF g]
  obtain q where m: "moveCat s = Inr (caught (catTo q s))" and e: "(?c, q) \<in> edges ?m"
    and w: "walkOn (edges ?m) q (dst ?m ?c ?p - 1) ?p"
    by blast
  from r obtain n where n: "walkOn (edges ?m) ?c n ?p"
    unfolding reaches_def by blast
  have pos: "dst ?m ?c ?p \<noteq> 0"
    using distOn_0D [OF n] ne by auto
  have le: "dst ?m q ?p \<le> dst ?m ?c ?p - 1"
    using w by (rule distOn_le)
  have "walkOn (edges ?m) ?c (Suc (dst ?m q ?p)) ?p"
    using walkOn_distOn [OF w] e by (rule walkOn_prepend)
  then have "dst ?m ?c ?p \<le> Suc (dst ?m q ?p)"
    by (rule distOn_le)
  with le pos have d: "Suc (dst ?m q ?p) = dst ?m ?c ?p"
    by simp
  have "reaches ?m q ?p"
    using w unfolding reaches_def by blast
  with m e d show ?thesis by simp
qed

lemma chase_dist:
  assumes "inGrid (catPos s)" "reaches (maze s) (catPos s) (playerPos s)"
    and "k \<le> dst (maze s) (catPos s) (playerPos s)"
  shows "\<exists>s'. chase k s = Inr s' \<and> maze s' = maze s \<and> playerPos s' = playerPos s
           \<and> inGrid (catPos s') \<and> reaches (maze s) (catPos s') (playerPos s)
           \<and> dst (maze s) (catPos s') (playerPos s) = dst (maze s) (catPos s) (playerPos s) - k"
  using assms
proof (induction k arbitrary: s)
  case 0
  then show ?case by simp
next
  case (Suc k)
  from Suc.prems(3) have "catPos s \<noteq> playerPos s"
    by auto
  from moveCat_step [OF Suc.prems(2) this Suc.prems(1)] obtain s1 where
    m: "moveCat s = Inr s1" and f: "maze s1 = maze s" "playerPos s1 = playerPos s"
    and e: "(catPos s, catPos s1) \<in> edges (maze s)"
    and r: "reaches (maze s) (catPos s1) (playerPos s)"
    and d: "Suc (dst (maze s) (catPos s1) (playerPos s)) = dst (maze s) (catPos s) (playerPos s)"
    by blast
  have g: "inGrid (catPos s1)"
    using edges_enterable [OF e] by (simp add: enterable_def)
  have "k \<le> dst (maze s1) (catPos s1) (playerPos s1)"
    using Suc.prems(3) d f by simp
  from Suc.IH [OF g _ this] r f obtain s' where
    "chase k s1 = Inr s'" "maze s' = maze s1" "playerPos s' = playerPos s1"
    "inGrid (catPos s')" "reaches (maze s1) (catPos s') (playerPos s1)"
    "dst (maze s1) (catPos s') (playerPos s1) = dst (maze s1) (catPos s1) (playerPos s1) - k"
    by auto
  with m f d show ?case by auto
qed

lemma chaseStart_walk: "walkOn (steps (maze chaseStart)) (catPos chaseStart) 2 (playerPos chaseStart)"
proof -
  have a: "((11, 11), (11, 10)) \<in> steps layout1"
    by (simp add: steps_def adjacent_def inGrid_def tileAt_def layout1_def config)
  have b: "((11, 10), (11, 9)) \<in> steps layout1"
    by (simp add: steps_def adjacent_def inGrid_def tileAt_def layout1_def config)
  have "walkOn (steps layout1) (11, 11) (Suc (Suc 0)) (11, 9)"
    using walkOn.walk_step [OF walkOn.walk_step [OF walkOn.walk_stay a] b] .
  then show ?thesis
    by (simp add: chaseStart_def catPos_def playerPos_def numeral_2_eq_2)
qed

lemma chaseStart_moves: "moveCat chaseStart = Inr (chaseStart\<lparr>catX := 11, catY := 10\<rparr>)"
  by (simp add: moveCat_def chaseStart_def bfsInit_def bfsLoop.simps directionLoop.simps
      visitDirection_def backtrack.simps caught_def Let_def dx_def dy_def tileAt_def layout1_def config)

text \<open>
  C1.  When the cat is on the grid and the player can be reached from it, one call of
  \<open>moveCat\<close> (the cat not yet on the player's tile) puts the cat on an adjacent tile that is
  one step closer to the player, so on a shortest path; with the player standing still,
  \<open>k\<close> calls in a row bring the distance down by exactly \<open>k\<close>, and as many calls as the
  distance bring the cat onto the player's tile.
\<close>

theorem cat_follows_shortest_path:
  assumes g: "inGrid (catPos s)" and w: "walkOn (steps (maze s)) (catPos s) n (playerPos s)"
  shows "(catPos s \<noteq> playerPos s \<longrightarrow>
           (\<exists>s'. moveCat s = Inr s' \<and> adjacent (maze s) (catPos s) (catPos s')
              \<and> Suc (distOn (steps (maze s)) (catPos s') (playerPos s))
                  = distOn (steps (maze s)) (catPos s) (playerPos s)))
       \<and> (\<forall>k \<le> distOn (steps (maze s)) (catPos s) (playerPos s).
            \<exists>s'. chase k s = Inr s' \<and> playerPos s' = playerPos s
              \<and> distOn (steps (maze s)) (catPos s') (playerPos s)
                  = distOn (steps (maze s)) (catPos s) (playerPos s) - k)
       \<and> (\<exists>s'. chase (distOn (steps (maze s)) (catPos s) (playerPos s)) s = Inr s'
              \<and> catPos s' = playerPos s)"
proof -
  let ?m = "maze s" and ?c = "catPos s" and ?p = "playerPos s"
  have r: "reaches ?m ?c ?p"
    using w g unfolding reaches_def by (auto simp: walk_edges_steps)
  have d: "distOn (steps ?m) ?c ?p = dst ?m ?c ?p"
    using g by (simp add: dist_edges_steps)
  have one: "\<exists>s'. moveCat s = Inr s' \<and> adjacent ?m ?c (catPos s')
              \<and> Suc (distOn (steps ?m) (catPos s') ?p) = distOn (steps ?m) ?c ?p"
    if "?c \<noteq> ?p"
  proof -
    from moveCat_step [OF r that g] obtain s' where
      m: "moveCat s = Inr s'" and e: "(?c, catPos s') \<in> edges ?m"
      and s: "Suc (dst ?m (catPos s') ?p) = dst ?m ?c ?p"
      by blast
    have a: "adjacent ?m ?c (catPos s')"
      using e g by (simp add: edges_iff_adjacent)
    then have "inGrid (catPos s')"
      by (rule adjacent_inGrid)
    then have "distOn (steps ?m) (catPos s') ?p = dst ?m (catPos s') ?p"
      by (simp add: dist_edges_steps)
    with m a s d show ?thesis by auto
  qed
  have many: "\<exists>s'. chase k s = Inr s' \<and> playerPos s' = ?p \<and> inGrid (catPos s')
              \<and> reaches ?m (catPos s') ?p
              \<and> distOn (steps ?m) (catPos s') ?p = distOn (steps ?m) ?c ?p - k"
    if "k \<le> distOn (steps ?m) ?c ?p" for k
  proof -
    from that d have "k \<le> dst ?m ?c ?p" by simp
    from chase_dist [OF g r this] obtain s' where
      c: "chase k s = Inr s'" "playerPos s' = ?p" "inGrid (catPos s')"
        "reaches ?m (catPos s') ?p"
        "dst ?m (catPos s') ?p = dst ?m ?c ?p - k"
      by blast
    from c(3) have "distOn (steps ?m) (catPos s') ?p = dst ?m (catPos s') ?p"
      by (simp add: dist_edges_steps)
    with c d show ?thesis by auto
  qed
  have last: "\<exists>s'. chase (distOn (steps ?m) ?c ?p) s = Inr s' \<and> catPos s' = ?p"
  proof -
    from many [OF order_refl] obtain s' where
      c: "chase (distOn (steps ?m) ?c ?p) s = Inr s'" "inGrid (catPos s')"
        "reaches ?m (catPos s') ?p" "distOn (steps ?m) (catPos s') ?p = 0"
      by auto
    from c(3) obtain j where "walkOn (edges ?m) (catPos s') j ?p"
      unfolding reaches_def by blast
    moreover have "dst ?m (catPos s') ?p = 0"
      using c(2,4) by (simp add: dist_edges_steps)
    ultimately have "?p = catPos s'" by (rule distOn_0D)
    with c(1) show ?thesis by auto
  qed
  from one many last show ?thesis by blast
qed

lemma chaseStart_dist:
  "distOn (steps (maze chaseStart)) (catPos chaseStart) (playerPos chaseStart) = 2"
proof -
  let ?E = "steps layout1"
  have c: "catPos chaseStart = (11, 11)" "playerPos chaseStart = (11, 9)" "maze chaseStart = layout1"
    by (simp_all add: chaseStart_def catPos_def playerPos_def)
  have le: "distOn ?E (11, 11) (11, 9) \<le> 2"
    using chaseStart_walk unfolding c by (rule distOn_le)
  have w: "walkOn ?E (11, 11) (distOn ?E (11, 11) (11, 9)) (11, 9)"
    using chaseStart_walk unfolding c by (rule walkOn_distOn)
  have "distOn ?E (11, 11) (11, 9) \<noteq> 0"
  proof
    assume "distOn ?E (11, 11) (11, 9) = 0"
    with w have "walkOn ?E (11, 11) 0 (11 :: int, 9 :: int)" by simp
    then show False by (auto elim: walkOn_0E)
  qed
  moreover have "distOn ?E (11, 11) (11, 9) \<noteq> 1"
  proof
    assume "distOn ?E (11, 11) (11, 9) = 1"
    with w have "walkOn ?E (11, 11) (Suc 0) (11 :: int, 9 :: int)" by simp
    then obtain z where "walkOn ?E (11, 11) 0 z" "(z, (11, 9)) \<in> ?E"
      by (auto elim: walkOn_SucE)
    then have "((11, 11), (11, 9)) \<in> ?E"
      by (auto elim: walkOn_0E)
    then show False
      by (simp add: steps_def adjacent_def config)
  qed
  ultimately have "distOn ?E (11, 11) (11, 9) = 2"
    using le by arith
  then show ?thesis by (simp add: c)
qed

theorem cat_follows_shortest_path_witness:
  "inGrid (catPos chaseStart)
   \<and> walkOn (steps (maze chaseStart)) (catPos chaseStart) 2 (playerPos chaseStart)
   \<and> catPos chaseStart \<noteq> playerPos chaseStart
   \<and> distOn (steps (maze chaseStart)) (catPos chaseStart) (playerPos chaseStart) = 2
   \<and> moveCat chaseStart = Inr (chaseStart\<lparr>catX := 11, catY := 10\<rparr>)
   \<and> (\<exists>s'. moveCat chaseStart = Inr s'
          \<and> adjacent (maze chaseStart) (catPos chaseStart) (catPos s')
          \<and> distOn (steps (maze chaseStart)) (catPos s') (playerPos chaseStart) = 1)
   \<and> (\<exists>s'. chase 1 chaseStart = Inr s' \<and> playerPos s' = playerPos chaseStart
          \<and> distOn (steps (maze chaseStart)) (catPos s') (playerPos chaseStart) = 1)
   \<and> (\<exists>s'. chase 2 chaseStart = Inr s' \<and> catPos s' = playerPos chaseStart)"
proof -
  have g: "inGrid (catPos chaseStart)"
    by (simp add: chaseStart_def catPos_def inGrid_def config)
  have n: "catPos chaseStart \<noteq> playerPos chaseStart"
    by (simp add: chaseStart_def catPos_def playerPos_def)
  note d = chaseStart_dist
  note t = cat_follows_shortest_path [OF g chaseStart_walk, unfolded d]
  from t n have 1: "\<exists>s'. moveCat chaseStart = Inr s'
          \<and> adjacent (maze chaseStart) (catPos chaseStart) (catPos s')
          \<and> distOn (steps (maze chaseStart)) (catPos s') (playerPos chaseStart) = 1"
    by auto
  from t have "\<forall>k\<le>2. \<exists>s'. chase k chaseStart = Inr s' \<and> playerPos s' = playerPos chaseStart
          \<and> distOn (steps (maze chaseStart)) (catPos s') (playerPos chaseStart) = 2 - k"
    by blast
  then have "\<exists>s'. chase 1 chaseStart = Inr s' \<and> playerPos s' = playerPos chaseStart
          \<and> distOn (steps (maze chaseStart)) (catPos s') (playerPos chaseStart) = 2 - 1"
    by (rule allE [where x = 1]) simp
  then have 2: "\<exists>s'. chase 1 chaseStart = Inr s' \<and> playerPos s' = playerPos chaseStart
          \<and> distOn (steps (maze chaseStart)) (catPos s') (playerPos chaseStart) = 1"
    by simp
  from t have 3: "\<exists>s'. chase 2 chaseStart = Inr s' \<and> catPos s' = playerPos chaseStart"
    by blast
  from g chaseStart_walk n d chaseStart_moves 1 2 3 show ?thesis
    by blast
qed

section \<open>What each callback leaves alone\<close>

lemma initMaze_frame [simp]:
  "currentGameState (initMaze l s) = currentGameState s"
  "resetIdentifier (initMaze l s) = resetIdentifier s"
  "timers (initMaze l s) = timers s"
  "currentLevel (initMaze l s) = currentLevel s"
  "totalScore (initMaze l s) = totalScore s"
  "timerActive (initMaze l s) = timerActive s"
  "rands (initMaze l s) = rands s"
  "maze (initMaze l s) = (if l = 2 then layout2 else if l = 3 then layout3 else layout1)"
  by (simp_all add: initMaze_def)

lemma initLevelData_frame [simp]:
  "currentGameState (initLevelData s) = currentGameState s"
  "resetIdentifier (initLevelData s) = resetIdentifier s"
  "timers (initLevelData s) = timers s"
  "currentLevel (initLevelData s) = currentLevel s"
  "totalScore (initLevelData s) = totalScore s"
  "timerActive (initLevelData s) = timerActive s"
  "maze (initLevelData s) = maze s"
  by (simp_all add: initLevelData_def split: prod.splits)

lemma initLevelData_sets [simp]:
  "score (initLevelData s) = 0"
  "playerPos (initLevelData s) = (PLAYER_START_X, PLAYER_START_Y)"
  "catPos (initLevelData s) = (CAT_START_X, CAT_START_Y)"
  "isCatSlowed (initLevelData s) = False"
  "catSlowDurationTimer (initLevelData s) = 0"
  "currentCatDelay (initLevelData s) = INITIAL_CAT_DELAY_MS"
  "normalCatDelayBeforeSlowdown (initLevelData s) = INITIAL_CAT_DELAY_MS"
  by (simp_all add: initLevelData_def playerPos_def catPos_def split: prod.splits)

lemma collectPowerup_frame [simp]:
  "currentGameState (collectPowerup s) = currentGameState s"
  "resetIdentifier (collectPowerup s) = resetIdentifier s"
  "timers (collectPowerup s) = timers s"
  "maze (collectPowerup s) = maze s"
  "playerX (collectPowerup s) = playerX s"
  "playerY (collectPowerup s) = playerY s"
  "catX (collectPowerup s) = catX s"
  "catY (collectPowerup s) = catY s"
  "score (collectPowerup s) = score s"
  "totalScore (collectPowerup s) = totalScore s"
  "cheeseLocations (collectPowerup s) = cheeseLocations s"
  "initialCheeseCount (collectPowerup s) = initialCheeseCount s"
  by (simp_all add: collectPowerup_def split: option.splits)

lemma nextLevel_frame [simp]:
  "resetIdentifier (nextLevel s) = resetIdentifier s"
  "maze (nextLevel s) = maze s"
  "playerX (nextLevel s) = playerX s"
  "playerY (nextLevel s) = playerY s"
  "catX (nextLevel s) = catX s"
  "catY (nextLevel s) = catY s"
  "cheeseLocations (nextLevel s) = cheeseLocations s"
  by (simp_all add: nextLevel_def Let_def)

lemma nextLevel_state:
  "currentGameState (nextLevel s) = GAME_WON_FINAL \<or> currentGameState (nextLevel s) = GAME_WON_LEVEL"
  by (simp add: nextLevel_def Let_def)

lemma enterTile_frame [simp]:
  "resetIdentifier (enterTile x y s) = resetIdentifier s"
  "maze (enterTile x y s) = maze s"
  "playerX (enterTile x y s) = x"
  "playerY (enterTile x y s) = y"
  "catX (enterTile x y s) = catX s"
  "catY (enterTile x y s) = catY s"
  by (simp_all add: enterTile_def Let_def split: option.splits)

lemma enterTile_pos [simp]:
  "playerPos (enterTile x y s) = (x, y)" "catPos (enterTile x y s) = catPos s"
  by (simp_all add: playerPos_def catPos_def)

lemma enterTile_state:
  "currentGameState (enterTile x y s) = currentGameState s
   \<or> currentGameState (enterTile x y s) = GAME_WON_FINAL
   \<or> currentGameState (enterTile x y s) = GAME_WON_LEVEL"
  using nextLevel_state
  by (simp add: enterTile_def Let_def split: option.splits)

lemma processPlayerMove_frame [simp]:
  "resetIdentifier (processPlayerMove x y s) = resetIdentifier s"
  "maze (processPlayerMove x y s) = maze s"
  "catX (processPlayerMove x y s) = catX s"
  "catY (processPlayerMove x y s) = catY s"
  "catPos (processPlayerMove x y s) = catPos s"
  by (simp_all add: processPlayerMove_eq)

lemma processPlayerMove_state:
  "currentGameState (processPlayerMove x y s) = currentGameState s
   \<or> currentGameState (processPlayerMove x y s) = GAME_WON_FINAL
   \<or> currentGameState (processPlayerMove x y s) = GAME_WON_LEVEL"
  using enterTile_state by (simp add: processPlayerMove_eq)

lemma caught_fields [simp]:
  "resetIdentifier (caught s) = resetIdentifier s"
  "timers (caught s) = timers s"
  "currentCatDelay (caught s) = currentCatDelay s"
  "currentLevel (caught s) = currentLevel s"
  "isCatSlowed (caught s) = isCatSlowed s"
  by (simp_all add: caught_def)

lemma catTo_fields [simp]:
  "resetIdentifier (catTo r s) = resetIdentifier s"
  "timers (catTo r s) = timers s"
  "currentCatDelay (catTo r s) = currentCatDelay s"
  "currentLevel (catTo r s) = currentLevel s"
  "isCatSlowed (catTo r s) = isCatSlowed s"
  "currentGameState (catTo r s) = currentGameState s"
  "score (catTo r s) = score s"
  "totalScore (catTo r s) = totalScore s"
  by (simp_all add: catTo_def)

lemma caught_elsewhere: "catPos s \<noteq> playerPos s \<Longrightarrow> caught s = s"
  by (auto simp: caught_def catPos_def playerPos_def)

lemma moveCat_frame:
  assumes "moveCat s = Inr s'"
  shows "resetIdentifier s' = resetIdentifier s" "timers s' = timers s" "maze s' = maze s"
    "playerPos s' = playerPos s" "currentCatDelay s' = currentCatDelay s"
    "currentLevel s' = currentLevel s" "isCatSlowed s' = isCatSlowed s"
  using moveCat_returns [of s] assms by auto

section \<open>The speed curve\<close>

lemma truncToInt_mono: "0 \<le> a \<Longrightarrow> a \<le> b \<Longrightarrow> truncToInt a \<le> truncToInt b"
  by (simp add: truncToInt_def floor_mono)

lemma sqrt_quarter: "sqrt (1 / 4) = 1 / 2"
  by (simp add: real_sqrt_divide)

lemma delayFor_quarter: "delayFor (1 / 4) = 250"
  by (simp add: delayFor_def truncToInt_def sqrt_quarter config)

text \<open>
  C4.  The delay computed for progress 0 is \<open>INITIAL_CAT_DELAY_MS\<close> (350), for progress 1 it
  is \<open>MIN_CAT_DELAY_MS\<close> (150), and between 0 and 1 more progress never gives a longer
  delay.
\<close>

theorem delayFor_endpoints_and_monotone:
  "delayFor 0 = INITIAL_CAT_DELAY_MS \<and> delayFor 1 = MIN_CAT_DELAY_MS
   \<and> (0 \<le> a \<and> a \<le> b \<and> b \<le> 1 \<longrightarrow> delayFor b \<le> delayFor a)"
proof (intro conjI impI)
  show "delayFor 0 = INITIAL_CAT_DELAY_MS"
    by (simp add: delayFor_def truncToInt_def config)
  show "delayFor 1 = MIN_CAT_DELAY_MS"
    by (simp add: delayFor_def truncToInt_def config)
  assume ab: "0 \<le> a \<and> a \<le> b \<and> b \<le> 1"
  then have "sqrt a \<le> sqrt b" "sqrt b \<le> 1"
    by (simp_all add: real_sqrt_le_1_iff)
  then have "0 \<le> 200 * (1 - sqrt b)" "200 * (1 - sqrt b) \<le> 200 * (1 - sqrt a)"
    by simp_all
  then have "truncToInt (200 * (1 - sqrt b)) \<le> truncToInt (200 * (1 - sqrt a))"
    by (rule truncToInt_mono)
  then show "delayFor b \<le> delayFor a"
    by (simp add: delayFor_def config)
qed

theorem delayFor_endpoints_and_monotone_witness:
  "(0::real) \<le> 1 / 4 \<and> (1 / 4 :: real) \<le> 1 \<and> (1::real) \<le> 1
   \<and> delayFor 1 \<le> delayFor (1 / 4) \<and> delayFor (1 / 4) = 250 \<and> delayFor 1 = 150"
  using delayFor_endpoints_and_monotone [of "1 / 4" 1] delayFor_quarter
  by (simp add: config)

section \<open>Level population\<close>

lemma list_ex_pos: "list_ex (\<lambda>loc. fst loc = x \<and> snd loc = y) locs \<longleftrightarrow> (x, y) \<in> set locs"
  by (induction locs) (auto simp: prod_eq_iff)

lemma list_ex_pw: "list_ex (\<lambda>p. pw_x p = x \<and> pw_y p = y) pws \<longleftrightarrow> (x, y) \<in> set (map pwPos pws)"
  by (induction pws) (auto simp: pwPos_def)

lemma draw_inGrid: "inGrid (int a mod COLS, int b mod ROWS)"
  by (simp add: inGrid_def config)

lemma placeCheeseLoop_inv:
  assumes "placeCheeseLoop m placed attempts cheese rs = (placed', attempts', cheese', rs')"
    and "distinct cheese" "\<forall>p\<in>set cheese. placeable m p" "placed = int (length cheese)"
  shows "distinct cheese' \<and> (\<forall>p\<in>set cheese'. placeable m p) \<and> placed' = int (length cheese')
       \<and> (placed' < NUM_CHEESE_TO_PLACE \<longrightarrow> maxAttempts \<le> attempts')
       \<and> (attempts \<le> maxAttempts \<longrightarrow> attempts' \<le> maxAttempts)
       \<and> (placed \<le> NUM_CHEESE_TO_PLACE \<longrightarrow> placed' \<le> NUM_CHEESE_TO_PLACE)"
  using assms
proof (induction m placed attempts cheese rs rule: placeCheeseLoop.induct)
  case (1 m placedCheese attempts cheese rs)
  let ?rx = "int (rs 0) mod COLS" and ?ry = "int (rs 1) mod ROWS"
  let ?rs = "\<lambda>i. rs (i + 2)"
  show ?case
  proof (cases "placedCheese < NUM_CHEESE_TO_PLACE \<and> attempts < maxAttempts")
    case False
    with "1.prems" show ?thesis
      by (subst (asm) placeCheeseLoop.simps) auto
  next
    case loop: True
    show ?thesis
    proof (cases "tileAt m ?rx ?ry = TILE_PATH \<and> \<not> startTile ?rx ?ry
              \<and> \<not> list_ex (\<lambda>loc. fst loc = ?rx \<and> snd loc = ?ry) cheese")
      case True
      then have new: "(?rx, ?ry) \<notin> set cheese" and ok: "placeable m (?rx, ?ry)"
        using draw_inGrid [of "rs 0" "rs 1"] by (simp_all add: list_ex_pos placeable_def enterable_def)
      have eq: "placeCheeseLoop m (placedCheese + 1) (attempts + 1) (cheese @ [(?rx, ?ry)]) ?rs
          = (placed', attempts', cheese', rs')"
        using "1.prems"(1) loop True
        by (subst (asm) placeCheeseLoop.simps) (simp add: Let_def)
      have "distinct cheese' \<and> (\<forall>p\<in>set cheese'. placeable m p) \<and> placed' = int (length cheese')
       \<and> (placed' < NUM_CHEESE_TO_PLACE \<longrightarrow> maxAttempts \<le> attempts')
       \<and> (attempts + 1 \<le> maxAttempts \<longrightarrow> attempts' \<le> maxAttempts)
       \<and> (placedCheese + 1 \<le> NUM_CHEESE_TO_PLACE \<longrightarrow> placed' \<le> NUM_CHEESE_TO_PLACE)"
        using loop True eq new ok "1.prems"(2-4)
        by (intro "1.IH"(1) [OF _ refl refl refl]) simp_all
      with loop show ?thesis by simp
    next
      case False
      have eq: "placeCheeseLoop m placedCheese (attempts + 1) cheese ?rs
          = (placed', attempts', cheese', rs')"
        using "1.prems"(1) loop False
        by (subst (asm) placeCheeseLoop.simps) (auto simp: Let_def)
      have "distinct cheese' \<and> (\<forall>p\<in>set cheese'. placeable m p) \<and> placed' = int (length cheese')
       \<and> (placed' < NUM_CHEESE_TO_PLACE \<longrightarrow> maxAttempts \<le> attempts')
       \<and> (attempts + 1 \<le> maxAttempts \<longrightarrow> attempts' \<le> maxAttempts)
       \<and> (placedCheese \<le> NUM_CHEESE_TO_PLACE \<longrightarrow> placed' \<le> NUM_CHEESE_TO_PLACE)"
        using loop False eq "1.prems"(2-4)
        by (intro "1.IH"(2) [OF _ refl refl refl]) simp_all
      with loop show ?thesis by simp
    qed
  qed
qed

lemma placePowerupLoop_inv:
  assumes "placePowerupLoop m cheese placed attempts pws rs = (placed', attempts', pws', rs')"
    and "distinct (map pwPos pws)"
    and "\<forall>p\<in>set pws. placeable m (pwPos p) \<and> pwPos p \<notin> set cheese"
    and "placed = int (length pws)"
  shows "distinct (map pwPos pws')
       \<and> (\<forall>p\<in>set pws'. placeable m (pwPos p) \<and> pwPos p \<notin> set cheese)
       \<and> placed' = int (length pws')
       \<and> (placed' < NUM_POWERUPS_PER_LEVEL \<longrightarrow> maxAttempts \<le> attempts')
       \<and> (attempts \<le> maxAttempts \<longrightarrow> attempts' \<le> maxAttempts)
       \<and> (placed \<le> NUM_POWERUPS_PER_LEVEL \<longrightarrow> placed' \<le> NUM_POWERUPS_PER_LEVEL)"
  using assms
proof (induction m cheese placed attempts pws rs rule: placePowerupLoop.induct)
  case (1 m cheese placedPowerups attempts pws rs)
  let ?rx = "int (rs 0) mod COLS" and ?ry = "int (rs 1) mod ROWS"
  let ?rs = "\<lambda>i. rs (i + 2)"
  let ?new = "\<lparr>pw_x = ?rx, pw_y = ?ry, pw_type = TILE_SLOW_POWERUP\<rparr>"
  show ?case
  proof (cases "placedPowerups < NUM_POWERUPS_PER_LEVEL \<and> attempts < maxAttempts")
    case False
    with "1.prems" show ?thesis
      by (subst (asm) placePowerupLoop.simps) auto
  next
    case loop: True
    show ?thesis
    proof (cases "tileAt m ?rx ?ry = TILE_PATH \<and> \<not> startTile ?rx ?ry
              \<and> \<not> list_ex (\<lambda>loc. fst loc = ?rx \<and> snd loc = ?ry) cheese
              \<and> \<not> list_ex (\<lambda>p. pw_x p = ?rx \<and> pw_y p = ?ry) pws")
      case True
      then have new: "pwPos ?new \<notin> set (map pwPos pws)" "pwPos ?new \<notin> set cheese"
        and ok: "placeable m (pwPos ?new)"
        using draw_inGrid [of "rs 0" "rs 1"]
        by (simp_all add: list_ex_pos list_ex_pw placeable_def enterable_def pwPos_def)
      have eq: "placePowerupLoop m cheese (placedPowerups + 1) (attempts + 1) (pws @ [?new]) ?rs
          = (placed', attempts', pws', rs')"
        using "1.prems"(1) loop True
        by (subst (asm) placePowerupLoop.simps) (simp add: Let_def)
      have "distinct (map pwPos pws')
       \<and> (\<forall>p\<in>set pws'. placeable m (pwPos p) \<and> pwPos p \<notin> set cheese)
       \<and> placed' = int (length pws')
       \<and> (placed' < NUM_POWERUPS_PER_LEVEL \<longrightarrow> maxAttempts \<le> attempts')
       \<and> (attempts + 1 \<le> maxAttempts \<longrightarrow> attempts' \<le> maxAttempts)
       \<and> (placedPowerups + 1 \<le> NUM_POWERUPS_PER_LEVEL \<longrightarrow> placed' \<le> NUM_POWERUPS_PER_LEVEL)"
        using loop True eq new ok "1.prems"(2-4)
        by (intro "1.IH"(1) [OF _ refl refl refl]) simp_all
      with loop show ?thesis by simp
    next
      case False
      have eq: "placePowerupLoop m cheese placedPowerups (attempts + 1) pws ?rs
          = (placed', attempts', pws', rs')"
        using "1.prems"(1) loop False
        by (subst (asm) placePowerupLoop.simps) (auto simp: Let_def)
      have "distinct (map pwPos pws')
       \<and> (\<forall>p\<in>set pws'. placeable m (pwPos p) \<and> pwPos p \<notin> set cheese)
       \<and> placed' = int (length pws')
       \<and> (placed' < NUM_POWERUPS_PER_LEVEL \<longrightarrow> maxAttempts \<le> attempts')
       \<and> (attempts + 1 \<le> maxAttempts \<longrightarrow> attempts' \<le> maxAttempts)
       \<and> (placedPowerups \<le> NUM_POWERUPS_PER_LEVEL \<longrightarrow> placed' \<le> NUM_POWERUPS_PER_LEVEL)"
        using loop False eq "1.prems"(2-4)
        by (intro "1.IH"(2) [OF _ refl refl refl]) simp_all
      with loop show ?thesis by simp
    qed
  qed
qed

lemma seed_cheese_loop:
  "placeCheeseLoop layout1 0 0 [] (\<lambda>i. seedDraws ! i)
     = (12, 12, [(2, 1), (3, 1), (5, 1), (6, 1), (7, 1), (8, 1), (9, 1), (10, 1), (11, 1), (12, 1),
        (13, 1), (14, 1)], (\<lambda>i. seedDraws ! (i + 24)))"
  by (simp add: seedDraws_def
      placeCheeseLoop.simps Let_def tileAt_def layout1_def startTile_def
      maxAttempts_def config add.assoc)

lemma seed_powerup_loop:
  "placePowerupLoop layout1 [(2, 1), (3, 1), (5, 1), (6, 1), (7, 1), (8, 1), (9, 1), (10, 1),
        (11, 1), (12, 1), (13, 1), (14, 1)] 0 0 [] (\<lambda>i. seedDraws ! (i + 24))
     = (1, 1, [\<lparr>pw_x = 15, pw_y = 1, pw_type = TILE_SLOW_POWERUP\<rparr>], (\<lambda>i. seedDraws ! (i + 26)))"
  by (simp add: seedDraws_def
      placePowerupLoop.simps Let_def tileAt_def layout1_def startTile_def
      maxAttempts_def config add.assoc)

lemma levelSeed_cheese:
  "cheeseLocations (initLevelData levelSeed)
     = [(2, 1), (3, 1), (5, 1), (6, 1), (7, 1), (8, 1), (9, 1), (10, 1), (11, 1), (12, 1),
        (13, 1), (14, 1)]"
  by (simp add: initLevelData_def levelSeed_def wallAhead_def seed_cheese_loop seed_powerup_loop)

lemma levelSeed_powerups:
  "map pwPos (powerupLocations (initLevelData levelSeed)) = [(15, 1)]"
  by (simp add: initLevelData_def levelSeed_def wallAhead_def seed_cheese_loop seed_powerup_loop
      pwPos_def)

lemma wallsOnly_tiles: "inGrid p \<Longrightarrow> tileAt (maze wallsOnly) (fst p) (snd p) \<noteq> TILE_PATH"
proof -
  assume "inGrid p"
  then have "nat (fst p) < 23" "nat (snd p) < 23"
    unfolding inGrid_def COLS_def ROWS_def by linarith+
  then have "replicate 23 (replicate 23 TILE_WALL) ! nat (snd p) ! nat (fst p) = TILE_WALL"
    by simp
  then show ?thesis
    by (simp add: wallsOnly_def tileAt_def config)
qed

text \<open>
  C7.  Whatever the maze and whatever \<open>rand()\<close> returns, after \<open>initLevelData\<close> no two of the
  cheese and power-ups share a tile, each lies on a \<open>TILE_PATH\<close> tile of the grid that is
  neither start tile, there are at most 12 cheese and 1 power-up, and
  \<open>initialCheeseCount\<close> is the number of cheese.  A loop that places fewer than its target
  has used all \<open>ROWS * COLS * 10\<close> attempts; \<open>initLevelData\<close> then returns as always, with
  the game state untouched and player and cat on their start tiles.
\<close>

theorem level_population:
  "distinct (cheeseLocations (initLevelData s) @ map pwPos (powerupLocations (initLevelData s)))
   \<and> (\<forall>p \<in> set (cheeseLocations (initLevelData s) @ map pwPos (powerupLocations (initLevelData s))).
        inGrid p \<and> tileAt (maze s) (fst p) (snd p) = TILE_PATH
        \<and> p \<noteq> (PLAYER_START_X, PLAYER_START_Y) \<and> p \<noteq> (CAT_START_X, CAT_START_Y))
   \<and> int (length (cheeseLocations (initLevelData s))) \<le> NUM_CHEESE_TO_PLACE
   \<and> int (length (powerupLocations (initLevelData s))) \<le> NUM_POWERUPS_PER_LEVEL
   \<and> initialCheeseCount (initLevelData s) = int (length (cheeseLocations (initLevelData s)))
   \<and> (int (length (cheeseLocations (initLevelData s))) < NUM_CHEESE_TO_PLACE
        \<longrightarrow> cheeseAttempts s = maxAttempts)
   \<and> (int (length (powerupLocations (initLevelData s))) < NUM_POWERUPS_PER_LEVEL
        \<longrightarrow> powerupAttempts s = maxAttempts)
   \<and> currentGameState (initLevelData s) = currentGameState s
   \<and> playerPos (initLevelData s) = (PLAYER_START_X, PLAYER_START_Y)
   \<and> catPos (initLevelData s) = (CAT_START_X, CAT_START_Y)"
proof -
  obtain pc ac cheese rs where c: "placeCheeseLoop (maze s) 0 0 [] (rands s) = (pc, ac, cheese, rs)"
    by (cases "placeCheeseLoop (maze s) 0 0 [] (rands s)") auto
  obtain pp ap pws rs' where p: "placePowerupLoop (maze s) cheese 0 0 [] rs = (pp, ap, pws, rs')"
    by (cases "placePowerupLoop (maze s) cheese 0 0 [] rs") auto
  have ci: "distinct cheese" "\<forall>p\<in>set cheese. placeable (maze s) p" "pc = int (length cheese)"
    "pc < NUM_CHEESE_TO_PLACE \<longrightarrow> maxAttempts \<le> ac" "ac \<le> maxAttempts" "pc \<le> NUM_CHEESE_TO_PLACE"
    using placeCheeseLoop_inv [OF c] by (simp_all add: maxAttempts_def config)
  have pi: "distinct (map pwPos pws)"
    "\<forall>p\<in>set pws. placeable (maze s) (pwPos p) \<and> pwPos p \<notin> set cheese" "pp = int (length pws)"
    "pp < NUM_POWERUPS_PER_LEVEL \<longrightarrow> maxAttempts \<le> ap" "ap \<le> maxAttempts"
    "pp \<le> NUM_POWERUPS_PER_LEVEL"
    using placePowerupLoop_inv [OF p] by (simp_all add: maxAttempts_def config)
  have f: "cheeseLocations (initLevelData s) = cheese" "powerupLocations (initLevelData s) = pws"
    "initialCheeseCount (initLevelData s) = int (length cheese)"
    "cheeseAttempts s = ac" "powerupAttempts s = ap"
    by (simp_all add: initLevelData_def cheeseAttempts_def powerupAttempts_def c p)
  have d: "distinct (cheese @ map pwPos pws)"
    using ci(1) pi(1,2) by auto
  have ok: "inGrid q \<and> tileAt (maze s) (fst q) (snd q) = TILE_PATH
        \<and> q \<noteq> (PLAYER_START_X, PLAYER_START_Y) \<and> q \<noteq> (CAT_START_X, CAT_START_Y)"
    if "placeable (maze s) q" for q
    using that by (auto simp: placeable_def enterable_def startTile_def)
  have all: "\<forall>q \<in> set (cheese @ map pwPos pws).
        inGrid q \<and> tileAt (maze s) (fst q) (snd q) = TILE_PATH
        \<and> q \<noteq> (PLAYER_START_X, PLAYER_START_Y) \<and> q \<noteq> (CAT_START_X, CAT_START_Y)"
  proof
    fix q
    assume "q \<in> set (cheese @ map pwPos pws)"
    then consider "q \<in> set cheese" | p where "p \<in> set pws" "q = pwPos p"
      by auto
    then have "placeable (maze s) q"
    proof cases
      case 1
      with ci(2) show ?thesis by blast
    next
      case 2
      with pi(2) show ?thesis by blast
    qed
    then show "inGrid q \<and> tileAt (maze s) (fst q) (snd q) = TILE_PATH
        \<and> q \<noteq> (PLAYER_START_X, PLAYER_START_Y) \<and> q \<noteq> (CAT_START_X, CAT_START_Y)"
      by (rule ok)
  qed
  show ?thesis
    unfolding f using d all ci(3-6) pi(3-6) by simp
qed

theorem level_population_witness:
  "(15, 1) \<in> set (cheeseLocations (initLevelData levelSeed)
                    @ map pwPos (powerupLocations (initLevelData levelSeed)))
   \<and> tileAt (maze levelSeed) 15 1 = TILE_PATH
   \<and> distinct (cheeseLocations (initLevelData levelSeed)
                 @ map pwPos (powerupLocations (initLevelData levelSeed)))
   \<and> initialCheeseCount (initLevelData levelSeed) = 12
   \<and> cheeseLocations (initLevelData wallsOnly) = []
   \<and> powerupLocations (initLevelData wallsOnly) = []
   \<and> int (length (cheeseLocations (initLevelData wallsOnly))) < NUM_CHEESE_TO_PLACE
   \<and> cheeseAttempts wallsOnly = maxAttempts
   \<and> powerupAttempts wallsOnly = maxAttempts
   \<and> playerPos (initLevelData wallsOnly) = (PLAYER_START_X, PLAYER_START_Y)"
proof -
  note seed = level_population [of levelSeed]
  note walls = level_population [of wallsOnly]
  have m: "(15, 1) \<in> set (cheeseLocations (initLevelData levelSeed)
                    @ map pwPos (powerupLocations (initLevelData levelSeed)))"
    by (simp add: levelSeed_cheese levelSeed_powerups)
  from seed have all: "\<forall>p \<in> set (cheeseLocations (initLevelData levelSeed)
                    @ map pwPos (powerupLocations (initLevelData levelSeed))).
        tileAt (maze levelSeed) (fst p) (snd p) = TILE_PATH"
    by blast
  from bspec [OF all m] have t: "tileAt (maze levelSeed) 15 1 = TILE_PATH"
    by simp
  have n: "initialCheeseCount (initLevelData levelSeed) = 12"
    using seed by (simp add: levelSeed_cheese)
  have "set (cheeseLocations (initLevelData wallsOnly)
                    @ map pwPos (powerupLocations (initLevelData wallsOnly))) = {}"
  proof (rule equals0I)
      fix q
      assume q: "q \<in> set (cheeseLocations (initLevelData wallsOnly)
                    @ map pwPos (powerupLocations (initLevelData wallsOnly)))"
      from walls have "\<forall>p \<in> set (cheeseLocations (initLevelData wallsOnly)
                    @ map pwPos (powerupLocations (initLevelData wallsOnly))).
        inGrid p \<and> tileAt (maze wallsOnly) (fst p) (snd p) = TILE_PATH"
        by blast
      with q have "inGrid q" "tileAt (maze wallsOnly) (fst q) (snd q) = TILE_PATH"
        by blast+
      with wallsOnly_tiles show False by blast
  qed
  then have e: "cheeseLocations (initLevelData wallsOnly) = []"
    "powerupLocations (initLevelData wallsOnly) = []"
    by simp_all
  with walls have a: "cheeseAttempts wallsOnly = maxAttempts" "powerupAttempts wallsOnly = maxAttempts"
    by (simp_all add: config)
  from m t seed n e a walls show ?thesis
    by (simp add: config)
qed

section \<open>Starting a level, and the cat's timer\<close>

lemma initLevelData_positions [simp]:
  "playerX (initLevelData s) = PLAYER_START_X" "playerY (initLevelData s) = PLAYER_START_Y"
  "catX (initLevelData s) = CAT_START_X" "catY (initLevelData s) = CAT_START_Y"
  by (simp_all add: initLevelData_def split: prod.splits)

lemma start_tiles_enterable:
  "enterable (maze (initMaze level s)) (PLAYER_START_X, PLAYER_START_Y)"
  "enterable (maze (initMaze level s)) (CAT_START_X, CAT_START_Y)"
  by (simp_all add: enterable_def inGrid_def tileAt_def layout1_def layout2_def layout3_def config)

lemma start_edge:
  assumes "((CAT_START_X, CAT_START_Y), r) \<in> edges m"
  shows "r \<noteq> (PLAYER_START_X, PLAYER_START_Y)"
proof -
  have "inGrid (CAT_START_X, CAT_START_Y)"
    by (simp add: inGrid_def config)
  with assms have "adjacent m (CAT_START_X, CAT_START_Y) r"
    by (simp add: edges_iff_adjacent)
  then show ?thesis
    by (auto simp: adjacent_def config)
qed

text \<open>The cat's first move of a level, with both on their start tiles, catches nobody.\<close>

lemma moveCat_from_start:
  assumes "catPos s = (CAT_START_X, CAT_START_Y)" "playerPos s = (PLAYER_START_X, PLAYER_START_Y)"
  shows "\<exists>s'. moveCat s = Inr s' \<and> (s' = s \<or> (\<exists>r. (catPos s, r) \<in> edges (maze s) \<and> s' = catTo r s))"
proof -
  have ne: "catPos s \<noteq> playerPos s"
    using assms by (simp add: config)
  from moveCat_returns [of s] obtain s' where m: "moveCat s = Inr s'"
    and c: "s' = s \<or> s' = caught s \<or> (\<exists>r. (catPos s, r) \<in> edges (maze s) \<and> s' = caught (catTo r s))"
    by blast
  from c show ?thesis
  proof (elim disjE exE conjE)
    assume "s' = s"
    with m show ?thesis by blast
  next
    assume "s' = caught s"
    with m caught_elsewhere [OF ne] show ?thesis by simp
  next
    fix r
    assume r: "(catPos s, r) \<in> edges (maze s)" and s': "s' = caught (catTo r s)"
    from r assms have "r \<noteq> playerPos s"
      using start_edge by simp
    then have "caught (catTo r s) = catTo r s"
      by (intro caught_elsewhere) simp
    with m s' have "moveCat s = Inr s'" "s' = catTo r s" by simp_all
    with r show ?thesis by blast
  qed
qed

lemma catTimer_stale: "val \<noteq> resetIdentifier s \<Longrightarrow> catTimer val s = Inr s"
  by (auto simp: catTimer_def)

lemma catTimer_cases:
  "catTimer val s = Inr s
   \<or> (currentGameState s = PLAYING \<and> timerActive s \<and> val = resetIdentifier s \<and>
       (\<exists>s1. (if isCatSlowed s then s1 = s else moveCat s = Inr s1)
          \<and> catTimer val s
              = Inr (s1\<lparr>timers := timers s1 @ [(currentCatDelay s1, CatTimer, resetIdentifier s1)]\<rparr>)))"
proof (cases "val \<noteq> resetIdentifier s \<or> \<not> (currentGameState s = PLAYING \<and> timerActive s)")
  case True
  then show ?thesis by (auto simp: catTimer_def)
next
  case False
  then have h: "val = resetIdentifier s" "currentGameState s = PLAYING" "timerActive s"
    by simp_all
  show ?thesis
  proof (cases "isCatSlowed s")
    case True
    with h show ?thesis by (simp add: catTimer_def)
  next
    case False
    from moveCat_returns [of s] obtain s1 where "moveCat s = Inr s1" by blast
    with h False show ?thesis by (simp add: catTimer_def)
  qed
qed

lemma catTimer_frame:
  assumes "catTimer val s = Inr s'"
  shows "resetIdentifier s' = resetIdentifier s" "maze s' = maze s" "playerPos s' = playerPos s"
    "currentLevel s' = currentLevel s" "isCatSlowed s' = isCatSlowed s"
proof -
  from catTimer_cases [of val s] assms
  consider "s' = s"
    | s1 where "isCatSlowed s \<Longrightarrow> s1 = s" "\<not> isCatSlowed s \<Longrightarrow> moveCat s = Inr s1"
        "s' = s1\<lparr>timers := timers s1 @ [(currentCatDelay s1, CatTimer, resetIdentifier s1)]\<rparr>"
    by (auto split: if_splits)
  then have "resetIdentifier s' = resetIdentifier s \<and> maze s' = maze s \<and> playerPos s' = playerPos s
    \<and> currentLevel s' = currentLevel s \<and> isCatSlowed s' = isCatSlowed s"
  proof cases
    case 1
    then show ?thesis by simp
  next
    case 2
    show ?thesis
    proof (cases "isCatSlowed s")
      case True
      with 2 show ?thesis by (simp add: playerPos_def)
    next
      case False
      with 2 have "moveCat s = Inr s1" by simp
      from moveCat_frame [OF this] 2(3) show ?thesis by (simp add: playerPos_def)
    qed
  qed
  then show "resetIdentifier s' = resetIdentifier s" "maze s' = maze s" "playerPos s' = playerPos s"
    "currentLevel s' = currentLevel s" "isCatSlowed s' = isCatSlowed s"
    by simp_all
qed

text \<open>
  The common tail of \<open>resetGame\<close> and of the lambda of \<open>nextLevel\<close>: the level is populated,
  the state set to \<open>PLAYING\<close>, and \<open>catTimer\<close> called with the current identifier.
\<close>

lemma level_start:
  assumes "s3 = (initLevelData s0)\<lparr>currentGameState := PLAYING, timerActive := True, lastTickTime := now\<rparr>"
  shows "\<exists>s'. catTimer (resetIdentifier s3) s3 = Inr s'
           \<and> currentGameState s' = PLAYING \<and> score s' = 0
           \<and> totalScore s' = totalScore s0 \<and> currentLevel s' = currentLevel s0
           \<and> resetIdentifier s' = resetIdentifier s0 \<and> maze s' = maze s0
           \<and> playerPos s' = (PLAYER_START_X, PLAYER_START_Y)
           \<and> (catPos s' = (CAT_START_X, CAT_START_Y) \<or> enterable (maze s0) (catPos s'))"
proof -
  have f: "currentGameState s3 = PLAYING" "timerActive s3" "\<not> isCatSlowed s3" "score s3 = 0"
    "totalScore s3 = totalScore s0" "currentLevel s3 = currentLevel s0"
    "resetIdentifier s3 = resetIdentifier s0" "maze s3 = maze s0"
    "playerPos s3 = (PLAYER_START_X, PLAYER_START_Y)" "catPos s3 = (CAT_START_X, CAT_START_Y)"
    by (simp_all add: assms playerPos_def catPos_def)
  from moveCat_from_start [OF f(10) f(9)] obtain s4 where m: "moveCat s3 = Inr s4"
    and c: "s4 = s3 \<or> (\<exists>r. (catPos s3, r) \<in> edges (maze s3) \<and> s4 = catTo r s3)"
    by blast
  let ?s = "s4\<lparr>timers := timers s4 @ [(currentCatDelay s4, CatTimer, resetIdentifier s4)]\<rparr>"
  have t: "catTimer (resetIdentifier s3) s3 = Inr ?s"
    using f(1-3) m by (simp add: catTimer_def)
  from c have "currentGameState s4 = PLAYING \<and> score s4 = 0
           \<and> totalScore s4 = totalScore s0 \<and> currentLevel s4 = currentLevel s0
           \<and> resetIdentifier s4 = resetIdentifier s0 \<and> maze s4 = maze s0
           \<and> playerPos s4 = (PLAYER_START_X, PLAYER_START_Y)
           \<and> (catPos s4 = (CAT_START_X, CAT_START_Y) \<or> enterable (maze s0) (catPos s4))"
  proof (elim disjE exE conjE)
    assume "s4 = s3"
    with f show ?thesis by simp
  next
    fix r
    assume "(catPos s3, r) \<in> edges (maze s3)" "s4 = catTo r s3"
    with f edges_enterable [of "catPos s3" r "maze s3"] show ?thesis by simp
  qed
  then have "currentGameState ?s = PLAYING \<and> score ?s = 0
           \<and> totalScore ?s = totalScore s0 \<and> currentLevel ?s = currentLevel s0
           \<and> resetIdentifier ?s = resetIdentifier s0 \<and> maze ?s = maze s0
           \<and> playerPos ?s = (PLAYER_START_X, PLAYER_START_Y)
           \<and> (catPos ?s = (CAT_START_X, CAT_START_Y) \<or> enterable (maze s0) (catPos ?s))"
    by (simp add: playerPos_def catPos_def)
  with t show ?thesis by blast
qed

lemma resetGame_returns:
  "\<exists>s'. resetGame now s = Inr s'
     \<and> currentGameState s' = PLAYING \<and> currentLevel s' = 1 \<and> score s' = 0 \<and> totalScore s' = 0
     \<and> resetIdentifier s' = resetIdentifier s + 1 \<and> maze s' = layout1
     \<and> playerPos s' = (PLAYER_START_X, PLAYER_START_Y)
     \<and> (catPos s' = (CAT_START_X, CAT_START_Y) \<or> enterable layout1 (catPos s'))"
proof -
  let ?s1 = "s\<lparr>resetIdentifier := resetIdentifier s + 1, timerActive := False,
                 currentLevel := 1, totalScore := 0\<rparr>"
  let ?s3 = "(initLevelData (initMaze 1 ?s1))\<lparr>currentGameState := PLAYING, timerActive := True,
      lastTickTime := now\<rparr>"
  have r: "resetGame now s = catTimer (resetIdentifier ?s3) ?s3"
    by (simp add: resetGame_def Let_def)
  from level_start [OF refl, where ?s0.0 = "initMaze 1 ?s1" and now = now] r show ?thesis
    by simp blast
qed

lemma nextLevelLambda_returns:
  "\<exists>s'. nextLevelLambda now v s = Inr s'
     \<and> currentGameState s' = PLAYING \<and> score s' = 0
     \<and> resetIdentifier s' = resetIdentifier s + 1 \<and> maze s' = maze (initMaze v s)
     \<and> playerPos s' = (PLAYER_START_X, PLAYER_START_Y)
     \<and> (catPos s' = (CAT_START_X, CAT_START_Y) \<or> enterable (maze (initMaze v s)) (catPos s'))"
proof -
  let ?s1 = "s\<lparr>resetIdentifier := resetIdentifier s + 1\<rparr>"
  let ?s3 = "(initLevelData (initMaze v ?s1))\<lparr>currentGameState := PLAYING, timerActive := True,
      lastTickTime := now\<rparr>"
  have r: "nextLevelLambda now v s = catTimer (resetIdentifier ?s3) ?s3"
    by (simp add: nextLevelLambda_def Let_def)
  from level_start [OF refl, where ?s0.0 = "initMaze v ?s1" and now = now] obtain s' where
    a: "catTimer (resetIdentifier ?s3) ?s3 = Inr s'" and
    b: "currentGameState s' = PLAYING" "score s' = 0"
      "resetIdentifier s' = resetIdentifier (initMaze v ?s1)" "maze s' = maze (initMaze v ?s1)"
      "playerPos s' = (PLAYER_START_X, PLAYER_START_Y)"
      "catPos s' = (CAT_START_X, CAT_START_Y) \<or> enterable (maze (initMaze v ?s1)) (catPos s')"
    by blast
  have m: "maze (initMaze v ?s1) = maze (initMaze v s)"
    by simp
  show ?thesis
  proof (intro exI [of _ s'] conjI)
    show "nextLevelLambda now v s = Inr s'" using r a by simp
    show "resetIdentifier s' = resetIdentifier s + 1" using b(3) by simp
    show "maze s' = maze (initMaze v s)" using b(4) m by simp
    show "catPos s' = (CAT_START_X, CAT_START_Y) \<or> enterable (maze (initMaze v s)) (catPos s')"
      using b(6) unfolding m .
  qed (rule b)+
qed

section \<open>Reset\<close>

text \<open>
  C2, as stated, fails in state \<open>GAME_WON_FINAL\<close>: \<open>keyboard\<close> guards the reset key with
  \<open>currentGameState != GAME_WON_FINAL\<close>, so the key changes nothing there.
\<close>

theorem reset_ignored_after_final_win_counterexample:
  "currentGameState finalWon = GAME_WON_FINAL
   \<and> keyboard 0 CHR ''r'' finalWon = Inr finalWon
   \<and> currentGameState finalWon \<noteq> PLAYING \<and> currentLevel finalWon \<noteq> 1"
  by (simp add: finalWon_def wallAhead_def keyboard_def isKey_def ESCAPE_KEY_def)

text \<open>
  C2, amended.  In state \<open>GAME_OVER\<close> the reset key (\<open>r\<close> or \<open>R\<close>) returns the game to
  \<open>PLAYING\<close> at level 1 with score and total score zero; in state \<open>GAME_WON_FINAL\<close> the same
  key leaves the session as it is.
\<close>

theorem reset_after_game_over:
  "(currentGameState s = GAME_OVER \<and> isKey key CHR ''r'' CHR ''R'' \<longrightarrow>
      (\<exists>s'. keyboard now key s = Inr s' \<and> currentGameState s' = PLAYING
         \<and> currentLevel s' = 1 \<and> score s' = 0 \<and> totalScore s' = 0))
   \<and> (currentGameState s = GAME_WON_FINAL \<and> isKey key CHR ''r'' CHR ''R'' \<longrightarrow>
      keyboard now key s = Inr s)"
proof (intro conjI impI)
  assume a: "currentGameState s = GAME_OVER \<and> isKey key CHR ''r'' CHR ''R''"
  then have "keyboard now key s = resetGame now s"
    by (simp add: keyboard_def)
  with resetGame_returns [of now s]
  show "\<exists>s'. keyboard now key s = Inr s' \<and> currentGameState s' = PLAYING
         \<and> currentLevel s' = 1 \<and> score s' = 0 \<and> totalScore s' = 0"
    by auto
next
  assume a: "currentGameState s = GAME_WON_FINAL \<and> isKey key CHR ''r'' CHR ''R''"
  then have "key \<noteq> ESCAPE_KEY"
    by (auto simp: isKey_def ESCAPE_KEY_def)
  with a show "keyboard now key s = Inr s"
    by (simp add: keyboard_def)
qed

theorem reset_after_game_over_witness:
  "currentGameState gameOver = GAME_OVER \<and> isKey CHR ''r'' CHR ''r'' CHR ''R''
   \<and> (\<exists>s'. keyboard 0 CHR ''r'' gameOver = Inr s' \<and> currentGameState s' = PLAYING
         \<and> currentLevel s' = 1 \<and> score s' = 0 \<and> totalScore s' = 0)
   \<and> currentGameState finalWon = GAME_WON_FINAL
   \<and> keyboard 0 CHR ''r'' finalWon = Inr finalWon"
proof -
  have g: "currentGameState gameOver = GAME_OVER \<and> isKey CHR ''r'' CHR ''r'' CHR ''R''"
    by (simp add: gameOver_def isKey_def)
  have f: "currentGameState finalWon = GAME_WON_FINAL \<and> isKey CHR ''r'' CHR ''r'' CHR ''R''"
    by (simp add: finalWon_def isKey_def)
  from g f reset_after_game_over [of gameOver "CHR ''r''" 0]
    reset_after_game_over [of finalWon "CHR ''r''" 0]
  show ?thesis by blast
qed

section \<open>Stale ticks\<close>

lemma idle_frame [simp]:
  "resetIdentifier (idle t s) = resetIdentifier s" "maze (idle t s) = maze s"
  "playerPos (idle t s) = playerPos s" "catPos (idle t s) = catPos s"
  "currentGameState (idle t s) = currentGameState s" "score (idle t s) = score s"
  by (simp_all add: idle_def Let_def playerPos_def catPos_def)

lemma specialKeyboard_rid [simp]:
  "resetIdentifier (specialKeyboard key s) = resetIdentifier s"
  by (simp add: specialKeyboard_def)

lemma keyboard_rid:
  assumes "keyboard now key s = Inr s'"
  shows "resetIdentifier s \<le> resetIdentifier s'"
proof -
  have reset: "resetIdentifier s \<le> resetIdentifier s'" if "resetGame now s = Inr s'"
    using resetGame_returns [of now s] that by auto
  have resume: "resetIdentifier s \<le> resetIdentifier s'"
    if "catTimer (resetIdentifier s + 1)
          (s\<lparr>currentGameState := PLAYING, timerActive := True, lastTickTime := now,
             resetIdentifier := resetIdentifier s + 1\<rparr>) = Inr s'"
    using catTimer_frame(1) [OF that] by simp
  from assms show ?thesis
    unfolding keyboard_def Let_def
    by (auto split: if_splits dest: reset resume)
qed

lemma fire_rid: "fire e s = Inr s' \<Longrightarrow> resetIdentifier s \<le> resetIdentifier s'"
proof (cases e)
  case (KeyPress now key)
  assume "fire e s = Inr s'"
  with KeyPress show ?thesis by (simp add: keyboard_rid)
next
  case (CatTick val)
  assume "fire e s = Inr s'"
  with CatTick catTimer_frame(1) [of val s s'] show ?thesis by simp
next
  case (LevelTimer now v)
  assume "fire e s = Inr s'"
  with LevelTimer nextLevelLambda_returns [of now v s] show ?thesis by auto
qed (auto simp: introLambda_def)

lemma run_rid: "run es s = Inr s' \<Longrightarrow> resetIdentifier s \<le> resetIdentifier s'"
proof (induction es arbitrary: s)
  case Nil
  then show ?case by simp
next
  case (Cons e es)
  then obtain s1 where f: "fire e s = Inr s1" and r: "run es s1 = Inr s'"
    by (auto split: sum.splits)
  from fire_rid [OF f] Cons.IH [OF r] show ?case by simp
qed

text \<open>
  C3.  A \<open>catTimer\<close> callback whose argument is the reset identifier of some moment, fired
  after a later \<open>resetGame\<close> and after whatever else happened since (further resets
  included), returns without changing anything: no field of the session, no new timer.
\<close>

theorem stale_tick_is_noop:
  assumes "val \<le> resetIdentifier s" and "resetGame now s = Inr s'" and "run es s' = Inr t"
  shows "catTimer val t = Inr t"
proof -
  have "resetIdentifier s' = resetIdentifier s + 1"
    using resetGame_returns [of now s] assms(2) by auto
  with run_rid [OF assms(3)] assms(1) have "val \<noteq> resetIdentifier t"
    by simp
  then show ?thesis
    by (rule catTimer_stale)
qed

theorem stale_tick_is_noop_witness:
  "(1::int) \<le> resetIdentifier wallAhead
   \<and> (\<exists>s'. resetGame 0 wallAhead = Inr s'
        \<and> run [Frame 16, SpecialPress GLUT_KEY_DOWN] s' = Inr (specialKeyboard GLUT_KEY_DOWN (idle 16 s'))
        \<and> catTimer 1 (specialKeyboard GLUT_KEY_DOWN (idle 16 s'))
             = Inr (specialKeyboard GLUT_KEY_DOWN (idle 16 s')))"
proof -
  have v: "(1::int) \<le> resetIdentifier wallAhead"
    by (simp add: wallAhead_def)
  from resetGame_returns [of 0 wallAhead] obtain s' where r: "resetGame 0 wallAhead = Inr s'"
    by blast
  have e: "run [Frame 16, SpecialPress GLUT_KEY_DOWN] s' = Inr (specialKeyboard GLUT_KEY_DOWN (idle 16 s'))"
    by simp
  from stale_tick_is_noop [OF v r e] v r e show ?thesis
    by blast
qed

section \<open>Who signals the catch\<close>





section \<open>Player and cat stay on path tiles\<close>

lemma onPath_cong:
  "maze s' = maze s \<Longrightarrow> playerPos s' = playerPos s \<Longrightarrow> catPos s' = catPos s \<Longrightarrow> onPath s' = onPath s"
  by (simp add: onPath_def)

lemma onPath_level: "onPath (initLevelData (initMaze level s))"
  using start_tiles_enterable [of level s] by (simp add: onPath_def)

lemma onPath_main: "onPath (main rs now)"
proof -
  let ?s1 = "(globals rs)\<lparr>timers := timers (globals rs) @ [(3500, IntroLambda, 0)]\<rparr>"
  have "main rs now = (initLevelData (initMaze (currentLevel ?s1) ?s1))\<lparr>lastTickTime := now\<rparr>"
    by (simp add: main_def Let_def)
  moreover have "onPath ((initLevelData (initMaze l ?s1))\<lparr>lastTickTime := now\<rparr>)
      = onPath (initLevelData (initMaze l ?s1))" for l
    by (rule onPath_cong) (simp_all add: playerPos_def catPos_def)
  ultimately show ?thesis
    using onPath_level by simp
qed

lemma onPath_move: "onPath s \<Longrightarrow> onPath (processPlayerMove nextX nextY s)"
  by (simp add: processPlayerMove_eq onPath_def)

lemma onPath_cat:
  assumes "onPath s" "moveCat s = Inr s'"
  shows "onPath s'"
proof -
  from moveCat_returns [of s] assms(2)
  consider "s' = s" | "s' = caught s" | r where "(catPos s, r) \<in> edges (maze s)" "s' = caught (catTo r s)"
    by auto
  then show ?thesis
  proof cases
    case 1
    with assms show ?thesis by simp
  next
    case 2
    with assms show ?thesis by (simp add: onPath_def)
  next
    case 3
    with assms edges_enterable [OF 3(1)] show ?thesis by (simp add: onPath_def)
  qed
qed

lemma onPath_catTimer:
  assumes "onPath s" "catTimer val s = Inr s'"
  shows "onPath s'"
proof -
  from catTimer_cases [of val s] assms(2)
  consider "s' = s"
    | s1 where "isCatSlowed s \<Longrightarrow> s1 = s" "\<not> isCatSlowed s \<Longrightarrow> moveCat s = Inr s1"
        "s' = s1\<lparr>timers := timers s1 @ [(currentCatDelay s1, CatTimer, resetIdentifier s1)]\<rparr>"
    by (auto split: if_splits)
  then show ?thesis
  proof cases
    case 1
    with assms show ?thesis by simp
  next
    case 2
    have "onPath s1"
      using 2(1,2) assms(1) onPath_cat by (cases "isCatSlowed s") auto
    moreover have "onPath s' = onPath s1"
      by (rule onPath_cong) (simp_all add: 2(3) playerPos_def catPos_def)
    ultimately show ?thesis by simp
  qed
qed

lemma onPath_reset:
  assumes "resetGame now s = Inr s'"
  shows "onPath s'"
proof -
  have "enterable layout1 (PLAYER_START_X, PLAYER_START_Y)" "enterable layout1 (CAT_START_X, CAT_START_Y)"
    using start_tiles_enterable [of 1 s] by simp_all
  with resetGame_returns [of now s] assms show ?thesis
    by (auto simp: onPath_def)
qed

lemma onPath_nextLevelLambda:
  assumes "nextLevelLambda now v s = Inr s'"
  shows "onPath s'"
  using nextLevelLambda_returns [of now v s] assms start_tiles_enterable [of v s]
  by (auto simp: onPath_def)

lemma keyboard_cases:
  assumes "keyboard now key s = Inr s'"
  shows "s' = s \<or> s' = s\<lparr>currentGameState := START_MENU\<rparr> \<or> resetGame now s = Inr s'
       \<or> s' = s\<lparr>currentGameState := PAUSED, timerActive := False\<rparr>
       \<or> catTimer (resetIdentifier s + 1)
            (s\<lparr>currentGameState := PLAYING, timerActive := True, lastTickTime := now,
               resetIdentifier := resetIdentifier s + 1\<rparr>) = Inr s'
       \<or> (\<exists>nextX nextY. s' = processPlayerMove nextX nextY s)"
  using assms unfolding keyboard_def Let_def by (auto split: if_splits)

lemma onPath_keyboard:
  assumes "onPath s" "keyboard now key s = Inr s'"
  shows "onPath s'"
proof -
  from keyboard_cases [OF assms(2)]
  consider "s' = s" | "s' = s\<lparr>currentGameState := START_MENU\<rparr>" | "resetGame now s = Inr s'"
    | "s' = s\<lparr>currentGameState := PAUSED, timerActive := False\<rparr>"
    | "catTimer (resetIdentifier s + 1)
            (s\<lparr>currentGameState := PLAYING, timerActive := True, lastTickTime := now,
               resetIdentifier := resetIdentifier s + 1\<rparr>) = Inr s'"
    | nextX nextY where "s' = processPlayerMove nextX nextY s"
    by blast
  then show ?thesis
  proof cases
    case 1
    with assms(1) show ?thesis by simp
  next
    case 2
    with assms(1) show ?thesis by (simp add: onPath_def playerPos_def catPos_def)
  next
    case 3
    then show ?thesis by (rule onPath_reset)
  next
    case 4
    with assms(1) show ?thesis by (simp add: onPath_def playerPos_def catPos_def)
  next
    case 5
    have "onPath (s\<lparr>currentGameState := PLAYING, timerActive := True, lastTickTime := now,
             resetIdentifier := resetIdentifier s + 1\<rparr>)"
      using assms(1) by (simp add: onPath_def playerPos_def catPos_def)
    then show ?thesis using 5 by (rule onPath_catTimer)
  next
    case 6
    with assms(1) show ?thesis by (simp add: onPath_move)
  qed
qed

lemma onPath_fire:
  assumes "onPath s" "fire e s = Inr s'"
  shows "onPath s'"
proof (cases e)
  case (KeyPress now key)
  with assms show ?thesis by (auto intro: onPath_keyboard)
next
  case (SpecialPress key)
  with assms show ?thesis by (auto simp: specialKeyboard_def onPath_move)
next
  case (Frame now)
  have "onPath (idle now s) = onPath s"
    by (rule onPath_cong) simp_all
  with Frame assms show ?thesis by auto
next
  case (CatTick val)
  with assms show ?thesis by (auto intro: onPath_catTimer)
next
  case (LevelTimer now v)
  with assms show ?thesis by (auto intro: onPath_nextLevelLambda)
next
  case IntroTimer
  have "onPath (introLambda s) = onPath s"
    by (rule onPath_cong) (simp_all add: introLambda_def playerPos_def catPos_def)
  with IntroTimer assms show ?thesis by auto
qed

text \<open>
  C9.  In every such session the player and the cat stand on tiles of the grid that hold
  \<open>TILE_PATH\<close>; in particular neither is ever on a tile that holds \<open>TILE_BLOCKED\<close>.
\<close>

theorem positions_stay_on_path:
  assumes "s \<in> reachable"
  shows "inGrid (playerPos s) \<and> tileAt (maze s) (playerX s) (playerY s) = TILE_PATH
       \<and> inGrid (catPos s) \<and> tileAt (maze s) (catX s) (catY s) = TILE_PATH
       \<and> tileAt (maze s) (playerX s) (playerY s) \<noteq> TILE_BLOCKED
       \<and> tileAt (maze s) (catX s) (catY s) \<noteq> TILE_BLOCKED"
proof -
  from assms have "onPath s"
  proof (induction rule: reachable.induct)
    case (at_start rs now)
    show ?case by (rule onPath_main)
  next
    case (new_level level s)
    show ?case by (rule onPath_level)
  next
    case (player_move s nextX nextY)
    then show ?case by (simp add: onPath_move)
  next
    case (cat_step s s')
    then show ?case by (blast intro: onPath_cat)
  next
    case (callback s e s')
    then show ?case by (blast intro: onPath_fire)
  qed
  then show ?thesis
    by (simp add: onPath_def enterable_def playerPos_def catPos_def config)
qed

theorem positions_stay_on_path_witness:
  "processPlayerMove 1 2 firstLevel \<in> reachable
   \<and> playerPos (processPlayerMove 1 2 firstLevel) = (1, 2)
   \<and> maze (processPlayerMove 1 2 firstLevel) = layout1
   \<and> tileAt layout1 1 2 = TILE_PATH
   \<and> catPos (processPlayerMove 1 2 firstLevel) = (11, 11)
   \<and> tileAt layout1 11 11 = TILE_PATH
   \<and> tileAt layout1 11 5 = TILE_BLOCKED
   \<and> processPlayerMove 11 5 firstLevel = firstLevel"
proof -
  let ?s = "processPlayerMove 1 2 firstLevel"
  have r: "?s \<in> reachable"
    unfolding firstLevel_def by (intro reachable.player_move reachable.new_level)
  have e: "enterable (maze firstLevel) (tunnelWrap 1 2, 2)"
    by (simp add: firstLevel_def enterable_def tunnelWrap_def inGrid_def tileAt_def layout1_def config)
  have p: "playerPos ?s = (1, 2)" "maze ?s = layout1" "catPos ?s = (11, 11)"
    using e by (simp_all add: processPlayerMove_eq tunnelWrap_def firstLevel_def config)
  have b: "tileAt layout1 11 5 = TILE_BLOCKED"
    by (simp add: tileAt_def layout1_def config)
  have "\<not> enterable (maze firstLevel) (tunnelWrap 11 5, 5)"
    by (simp add: firstLevel_def enterable_def tunnelWrap_def inGrid_def tileAt_def layout1_def config)
  then have n: "processPlayerMove 11 5 firstLevel = firstLevel"
    by (simp add: processPlayerMove_eq)
  from positions_stay_on_path [OF r] p
  have "tileAt layout1 1 2 = TILE_PATH" "tileAt layout1 11 11 = TILE_PATH"
    by (simp_all add: playerPos_def catPos_def)
  with r p b n show ?thesis by simp
qed

section \<open>The tunnel\<close>

lemma neighbour_off_row:
  "snd c + dy ! i \<noteq> TUNNEL_ROW_INDEX \<Longrightarrow> neighbour c i = (fst c + dx ! i, snd c + dy ! i)"
  by (simp add: neighbour_def Let_def)

lemma tunnel_ends_inGrid: "inGrid (0, TUNNEL_ROW_INDEX)" "inGrid (COLS - 1, TUNNEL_ROW_INDEX)"
  by (simp_all add: inGrid_def config)

lemma tunnel_neighbours:
  "neighbour (0, TUNNEL_ROW_INDEX) 2 = (COLS - 1, TUNNEL_ROW_INDEX)"
  "neighbour (COLS - 1, TUNNEL_ROW_INDEX) 3 = (0, TUNNEL_ROW_INDEX)"
  by (simp_all add: neighbour_inGrid [OF tunnel_ends_inGrid(1)]
      neighbour_inGrid [OF tunnel_ends_inGrid(2)])

lemma visitDirection_enters:
  assumes "enterable m (neighbour c i)" "\<not> visited b (neighbour c i)"
  shows "visited (visitDirection m player c i b) (neighbour c i)
       \<and> parent (visitDirection m player c i b) (neighbour c i) = c
       \<and> queue (visitDirection m player c i b) = queue b @ [neighbour c i]"
  using assms by (simp add: visitDirection_eq)

text \<open>
  C6.  On the tunnel row a player move to the left of column 0 lands in column
  \<open>COLS - 1\<close> of the same row and a move to the right of column \<open>COLS - 1\<close> lands in column 0,
  each when the tile there can be entered; on any other row a candidate off the grid
  changes nothing.  The search of \<open>moveCat\<close> does the same: direction 2 (left) from the left
  end of the tunnel row enters the right end, direction 3 (right) from the right end
  enters the left end, and on any other row a candidate off the grid is passed over.
\<close>

theorem tunnel_wrap_on_tunnel_row_only:
  "(enterable (maze s) (COLS - 1, TUNNEL_ROW_INDEX) \<longrightarrow>
      playerPos (processPlayerMove (0 - 1) TUNNEL_ROW_INDEX s) = (COLS - 1, TUNNEL_ROW_INDEX))
   \<and> (enterable (maze s) (0, TUNNEL_ROW_INDEX) \<longrightarrow>
      playerPos (processPlayerMove (COLS - 1 + 1) TUNNEL_ROW_INDEX s) = (0, TUNNEL_ROW_INDEX))
   \<and> (nextY \<noteq> TUNNEL_ROW_INDEX \<and> \<not> inGrid (nextX, nextY) \<longrightarrow>
      processPlayerMove nextX nextY s = s)
   \<and> (enterable m (COLS - 1, TUNNEL_ROW_INDEX) \<and> \<not> visited b (COLS - 1, TUNNEL_ROW_INDEX) \<longrightarrow>
      visited (visitDirection m player (0, TUNNEL_ROW_INDEX) 2 b) (COLS - 1, TUNNEL_ROW_INDEX)
      \<and> parent (visitDirection m player (0, TUNNEL_ROW_INDEX) 2 b) (COLS - 1, TUNNEL_ROW_INDEX)
          = (0, TUNNEL_ROW_INDEX)
      \<and> queue (visitDirection m player (0, TUNNEL_ROW_INDEX) 2 b)
          = queue b @ [(COLS - 1, TUNNEL_ROW_INDEX)])
   \<and> (enterable m (0, TUNNEL_ROW_INDEX) \<and> \<not> visited b (0, TUNNEL_ROW_INDEX) \<longrightarrow>
      visited (visitDirection m player (COLS - 1, TUNNEL_ROW_INDEX) 3 b) (0, TUNNEL_ROW_INDEX)
      \<and> parent (visitDirection m player (COLS - 1, TUNNEL_ROW_INDEX) 3 b) (0, TUNNEL_ROW_INDEX)
          = (COLS - 1, TUNNEL_ROW_INDEX)
      \<and> queue (visitDirection m player (COLS - 1, TUNNEL_ROW_INDEX) 3 b)
          = queue b @ [(0, TUNNEL_ROW_INDEX)])
   \<and> (snd c + dy ! i \<noteq> TUNNEL_ROW_INDEX \<and> \<not> inGrid (fst c + dx ! i, snd c + dy ! i) \<longrightarrow>
      visitDirection m player c i b = b)"
proof -
  have 1: "playerPos (processPlayerMove (0 - 1) TUNNEL_ROW_INDEX s) = (COLS - 1, TUNNEL_ROW_INDEX)"
    if "enterable (maze s) (COLS - 1, TUNNEL_ROW_INDEX)"
    using that by (simp add: processPlayerMove_eq tunnelWrap_def)
  have 2: "playerPos (processPlayerMove (COLS - 1 + 1) TUNNEL_ROW_INDEX s) = (0, TUNNEL_ROW_INDEX)"
    if "enterable (maze s) (0, TUNNEL_ROW_INDEX)"
    using that by (simp add: processPlayerMove_eq tunnelWrap_def COLS_def)
  have 3: "processPlayerMove nextX nextY s = s"
    if "nextY \<noteq> TUNNEL_ROW_INDEX \<and> \<not> inGrid (nextX, nextY)"
    using that by (simp add: processPlayerMove_eq tunnelWrap_def enterable_def)
  have 4: "visited (visitDirection m player (0, TUNNEL_ROW_INDEX) 2 b) (COLS - 1, TUNNEL_ROW_INDEX)
      \<and> parent (visitDirection m player (0, TUNNEL_ROW_INDEX) 2 b) (COLS - 1, TUNNEL_ROW_INDEX)
          = (0, TUNNEL_ROW_INDEX)
      \<and> queue (visitDirection m player (0, TUNNEL_ROW_INDEX) 2 b)
          = queue b @ [(COLS - 1, TUNNEL_ROW_INDEX)]"
    if "enterable m (COLS - 1, TUNNEL_ROW_INDEX) \<and> \<not> visited b (COLS - 1, TUNNEL_ROW_INDEX)"
    using that visitDirection_enters [of m "(0, TUNNEL_ROW_INDEX)" 2 b player]
    by (simp add: tunnel_neighbours)
  have 5: "visited (visitDirection m player (COLS - 1, TUNNEL_ROW_INDEX) 3 b) (0, TUNNEL_ROW_INDEX)
      \<and> parent (visitDirection m player (COLS - 1, TUNNEL_ROW_INDEX) 3 b) (0, TUNNEL_ROW_INDEX)
          = (COLS - 1, TUNNEL_ROW_INDEX)
      \<and> queue (visitDirection m player (COLS - 1, TUNNEL_ROW_INDEX) 3 b)
          = queue b @ [(0, TUNNEL_ROW_INDEX)]"
    if "enterable m (0, TUNNEL_ROW_INDEX) \<and> \<not> visited b (0, TUNNEL_ROW_INDEX)"
    using that visitDirection_enters [of m "(COLS - 1, TUNNEL_ROW_INDEX)" 3 b player]
    by (simp add: tunnel_neighbours)
  have 6: "visitDirection m player c i b = b"
    if "snd c + dy ! i \<noteq> TUNNEL_ROW_INDEX \<and> \<not> inGrid (fst c + dx ! i, snd c + dy ! i)"
    using that by (simp add: visitDirection_eq neighbour_off_row enterable_def)
  from 1 2 3 4 5 6 show ?thesis by blast
qed

theorem tunnel_wrap_on_tunnel_row_only_witness:
  "enterable (maze tunnelLeft) (COLS - 1, TUNNEL_ROW_INDEX)
   \<and> playerPos tunnelLeft = (0, 11)
   \<and> playerPos (processPlayerMove (0 - 1) TUNNEL_ROW_INDEX tunnelLeft) = (22, 11)
   \<and> (5 \<noteq> TUNNEL_ROW_INDEX \<and> \<not> inGrid (- 1, 5))
   \<and> processPlayerMove (- 1) 5 tunnelLeft = tunnelLeft
   \<and> (enterable layout1 (COLS - 1, TUNNEL_ROW_INDEX)
        \<and> \<not> visited (bfsInit (0, 11)) (COLS - 1, TUNNEL_ROW_INDEX))
   \<and> visited (visitDirection layout1 (1, 1) (0, 11) 2 (bfsInit (0, 11))) (22, 11)
   \<and> parent (visitDirection layout1 (1, 1) (0, 11) 2 (bfsInit (0, 11))) (22, 11) = (0, 11)
   \<and> queue (visitDirection layout1 (1, 1) (0, 11) 2 (bfsInit (0, 11))) = [(0, 11), (22, 11)]
   \<and> (snd (0 :: int, 9 :: int) + dy ! 2 \<noteq> TUNNEL_ROW_INDEX
        \<and> \<not> inGrid (fst (0 :: int, 9 :: int) + dx ! 2, snd (0 :: int, 9 :: int) + dy ! 2))
   \<and> visitDirection layout1 (1, 1) (0, 9) 2 (bfsInit (0, 11)) = bfsInit (0, 11)"
proof -
  have e: "enterable (maze tunnelLeft) (COLS - 1, TUNNEL_ROW_INDEX)"
    "enterable layout1 (COLS - 1, TUNNEL_ROW_INDEX)"
    by (simp_all add: tunnelLeft_def wallAhead_def enterable_def inGrid_def tileAt_def layout1_def config)
  have p: "playerPos tunnelLeft = (0, 11)"
    by (simp add: tunnelLeft_def wallAhead_def playerPos_def)
  have o: "5 \<noteq> TUNNEL_ROW_INDEX \<and> \<not> inGrid (- 1, 5)"
    by (simp add: inGrid_def config)
  have v: "\<not> visited (bfsInit (0, 11)) (COLS - 1, TUNNEL_ROW_INDEX)"
    by (simp add: bfsInit_def config)
  have q: "queue (bfsInit (0, 11)) = [(0, 11)]"
    by (simp add: bfsInit_def)
  have r: "snd (0 :: int, 9 :: int) + dy ! 2 \<noteq> TUNNEL_ROW_INDEX
        \<and> \<not> inGrid (fst (0 :: int, 9 :: int) + dx ! 2, snd (0 :: int, 9 :: int) + dy ! 2)"
    by (simp add: dx_def dy_def inGrid_def config)
  note t = tunnel_wrap_on_tunnel_row_only [where s = tunnelLeft and nextX = "- 1" and nextY = 5
      and m = layout1 and b = "bfsInit (0, 11)" and player = "(1, 1)" and c = "(0, 9)" and i = 2]
  from t e(1) have 1: "playerPos (processPlayerMove (0 - 1) TUNNEL_ROW_INDEX tunnelLeft) = (22, 11)"
    by (simp add: config)
  from t o have 2: "processPlayerMove (- 1) 5 tunnelLeft = tunnelLeft"
    by blast
  from t e(2) v have 3:
    "visited (visitDirection layout1 (1, 1) (0, 11) 2 (bfsInit (0, 11))) (22, 11)
     \<and> parent (visitDirection layout1 (1, 1) (0, 11) 2 (bfsInit (0, 11))) (22, 11) = (0, 11)
     \<and> queue (visitDirection layout1 (1, 1) (0, 11) 2 (bfsInit (0, 11))) = [(0, 11), (22, 11)]"
    by (simp add: config q)
  from t r have 4: "visitDirection layout1 (1, 1) (0, 9) 2 (bfsInit (0, 11)) = bfsInit (0, 11)"
    by blast
  from e p o v r 1 2 3 4 show ?thesis by blast
qed

section \<open>The slow effect runs out\<close>

subsection \<open>What the game keeps true of the score, the power-ups and the effect\<close>

lemma tidy_cong:
  assumes "score s' = score s" "initialCheeseCount s' = initialCheeseCount s"
    "normalCatDelayBeforeSlowdown s' = normalCatDelayBeforeSlowdown s"
    "isCatSlowed s' = isCatSlowed s" "currentCatDelay s' = currentCatDelay s"
    "powerupLocations s' = powerupLocations s" "catSlowDurationTimer s' = catSlowDurationTimer s"
  shows "tidy s' = tidy s"
  by (simp add: tidy_def assms)

lemma eraseCheeseAt_length: "eraseCheeseAt x y c = Some rest \<Longrightarrow> Suc (length rest) = length c"
  by (induction c arbitrary: rest) (auto split: if_splits)

lemma erasePowerupAt_length: "erasePowerupAt x y c = Some rest \<Longrightarrow> Suc (length rest) = length c"
  by (induction c arbitrary: rest) (auto split: if_splits)

lemma tidy_initLevelData: "tidy (initLevelData s)"
proof -
  obtain a b cheese rs where c: "placeCheeseLoop (maze s) 0 0 [] (rands s) = (a, b, cheese, rs)"
    by (cases "placeCheeseLoop (maze s) 0 0 [] (rands s)") auto
  obtain p a' pws rs' where p: "placePowerupLoop (maze s) cheese 0 0 [] rs = (p, a', pws, rs')"
    by (cases "placePowerupLoop (maze s) cheese 0 0 [] rs") auto
  from placePowerupLoop_inv [OF p] have "int (length pws) \<le> NUM_POWERUPS_PER_LEVEL"
    by (simp add: config)
  then have "length pws \<le> 1" by (simp add: config)
  with c p show ?thesis by (simp add: tidy_def initLevelData_def)
qed

lemma erasePowerupAt_single:
  "erasePowerupAt x y c = Some rest \<Longrightarrow> length c \<le> 1 \<Longrightarrow> rest = []"
  using erasePowerupAt_length [of x y c rest] by (cases rest) simp_all

lemma tidy_collectPowerup: "tidy s \<Longrightarrow> tidy (collectPowerup s)"
  by (auto simp: tidy_def collectPowerup_def config split: option.splits
      dest: erasePowerupAt_single)

lemma tidy_nextLevel: "tidy s \<Longrightarrow> tidy (nextLevel s)"
  by (simp add: tidy_def nextLevel_def Let_def)

lemma tidy_enterTile:
  assumes "tidy s"
  shows "tidy (enterTile x y s)"
proof -
  let ?s1 = "s\<lparr>playerX := x, playerY := y\<rparr>"
  have t1: "tidy ?s1" using assms by (simp add: tidy_def)
  show ?thesis
  proof (cases "eraseCheeseAt x y (cheeseLocations s)")
    case None
    with tidy_collectPowerup [OF t1] show ?thesis by (simp add: enterTile_def)
  next
    case (Some rest)
    let ?s2 = "?s1\<lparr>cheeseLocations := rest, score := score ?s1 + 1\<rparr>"
    let ?s3 = "(if \<not> isCatSlowed ?s2 \<and> initialCheeseCount ?s2 > 0
                       then ?s2\<lparr>currentCatDelay := delayFor (progressOf ?s2),
                               normalCatDelayBeforeSlowdown := delayFor (progressOf ?s2)\<rparr>
                       else ?s2)"
    have t3: "tidy ?s3" using assms by (simp add: tidy_def)
    have e: "enterTile x y s = (if cheeseLocations ?s3 = [] then nextLevel ?s3 else collectPowerup ?s3)"
      using Some by (simp add: enterTile_def Let_def)
    from tidy_nextLevel [OF t3] tidy_collectPowerup [OF t3] show ?thesis
      unfolding e by (simp split: if_splits)
  qed
qed

lemma tidy_move: "tidy s \<Longrightarrow> tidy (processPlayerMove x y s)"
  by (simp add: processPlayerMove_eq tidy_enterTile)

lemma tidy_caught: "tidy s \<Longrightarrow> tidy (caught s)"
  by (simp add: tidy_def caught_def)

lemma tidy_catTo: "tidy (catTo r s) = tidy s"
  by (simp add: tidy_def catTo_def)

lemma tidy_moveCat: "tidy s \<Longrightarrow> moveCat s = Inr s' \<Longrightarrow> tidy s'"
  using moveCat_returns [of s] by (auto simp: tidy_caught tidy_catTo)

lemma tidy_catTimer:
  assumes "tidy s" "catTimer val s = Inr s'"
  shows "tidy s'"
proof -
  from catTimer_cases [of val s] assms(2)
  consider "s' = s"
    | s1 where "isCatSlowed s \<Longrightarrow> s1 = s" "\<not> isCatSlowed s \<Longrightarrow> moveCat s = Inr s1"
        "s' = s1\<lparr>timers := timers s1 @ [(currentCatDelay s1, CatTimer, resetIdentifier s1)]\<rparr>"
    by (auto split: if_splits)
  then show ?thesis
  proof cases
    case 1
    with assms show ?thesis by simp
  next
    case 2
    have "tidy s1" using 2(1,2) assms(1) tidy_moveCat [of s s1] by (cases "isCatSlowed s") auto
    with 2(3) show ?thesis by (simp add: tidy_def)
  qed
qed

lemma tidy_idle: "tidy s \<Longrightarrow> tidy (idle t s)"
  by (auto simp: tidy_def idle_def Let_def)

lemma tidy_resetGame: "resetGame now s = Inr s' \<Longrightarrow> tidy s'"
proof -
  assume r: "resetGame now s = Inr s'"
  let ?s1 = "s\<lparr>resetIdentifier := resetIdentifier s + 1, timerActive := False,
                 currentLevel := 1, totalScore := 0\<rparr>"
  let ?s2 = "initLevelData (initMaze (currentLevel ?s1) ?s1)"
  let ?s3 = "?s2\<lparr>currentGameState := PLAYING, timerActive := True, lastTickTime := now\<rparr>"
  have "tidy ?s3" using tidy_initLevelData [of "initMaze (currentLevel ?s1) ?s1"]
    by (simp add: tidy_def)
  moreover from r have "catTimer (resetIdentifier ?s3) ?s3 = Inr s'"
    unfolding resetGame_def Let_def .
  ultimately show ?thesis by (rule tidy_catTimer)
qed

lemma tidy_nextLevelLambda: "nextLevelLambda now v s = Inr s' \<Longrightarrow> tidy s'"
proof -
  assume r: "nextLevelLambda now v s = Inr s'"
  let ?s1 = "s\<lparr>resetIdentifier := resetIdentifier s + 1\<rparr>"
  let ?s2 = "initLevelData (initMaze v ?s1)"
  let ?s3 = "?s2\<lparr>currentGameState := PLAYING, timerActive := True, lastTickTime := now\<rparr>"
  have "tidy ?s3" using tidy_initLevelData [of "initMaze v ?s1"]
    by (simp add: tidy_def)
  moreover from r have "catTimer (resetIdentifier ?s3) ?s3 = Inr s'"
    unfolding nextLevelLambda_def Let_def .
  ultimately show ?thesis by (rule tidy_catTimer)
qed

lemma tidy_keyboard:
  assumes "tidy s" "keyboard now key s = Inr s'"
  shows "tidy s'"
proof -
  from keyboard_cases [OF assms(2)]
  consider "s' = s" | "s' = s\<lparr>currentGameState := START_MENU\<rparr>" | "resetGame now s = Inr s'"
    | "s' = s\<lparr>currentGameState := PAUSED, timerActive := False\<rparr>"
    | "catTimer (resetIdentifier s + 1)
            (s\<lparr>currentGameState := PLAYING, timerActive := True, lastTickTime := now,
               resetIdentifier := resetIdentifier s + 1\<rparr>) = Inr s'"
    | nextX nextY where "s' = processPlayerMove nextX nextY s"
    by blast
  then show ?thesis
  proof cases
    case 5
    have "tidy (s\<lparr>currentGameState := PLAYING, timerActive := True, lastTickTime := now,
               resetIdentifier := resetIdentifier s + 1\<rparr>)"
      using assms(1) by (simp add: tidy_def)
    from tidy_catTimer [OF this 5] show ?thesis .
  qed (use assms(1) in \<open>simp_all add: tidy_def [of "_\<lparr>currentGameState := _\<rparr>"] tidy_def [of "_\<lparr>currentGameState := _, timerActive := _\<rparr>"] tidy_resetGame tidy_move\<close>, simp_all add: tidy_def)
qed

lemma tidy_fire: "tidy s \<Longrightarrow> fire e s = Inr s' \<Longrightarrow> tidy s'"
proof (cases e)
  case (KeyPress now key)
  assume "tidy s" "fire e s = Inr s'"
  with KeyPress show ?thesis by (simp add: tidy_keyboard)
next
  case (SpecialPress key)
  assume "tidy s" "fire e s = Inr s'"
  with SpecialPress show ?thesis by (auto simp: specialKeyboard_def tidy_move split: if_splits)
next
  case (Frame now)
  assume "tidy s" "fire e s = Inr s'"
  with Frame show ?thesis by (auto simp: tidy_idle)
next
  case (CatTick val)
  assume "tidy s" "fire e s = Inr s'"
  with CatTick show ?thesis by (auto simp: tidy_catTimer)
next
  case (LevelTimer now v)
  assume "tidy s" "fire e s = Inr s'"
  with LevelTimer show ?thesis by (auto simp: tidy_nextLevelLambda)
next
  case IntroTimer
  assume "tidy s" "fire e s = Inr s'"
  with IntroTimer have "s' = s \<or> s' = s\<lparr>currentGameState := START_MENU\<rparr>"
    by (auto simp: introLambda_def)
  with \<open>tidy s\<close> show ?thesis by (auto simp: tidy_def)
qed

lemma tidy_reachable: "s \<in> reachable \<Longrightarrow> tidy s"
proof (induction rule: reachable.induct)
  case (at_start rs now)
  have "tidy (initLevelData (initMaze (currentLevel (globals rs\<lparr>timers := timers (globals rs) @ [(3500, IntroLambda, 0)]\<rparr>)) (globals rs\<lparr>timers := timers (globals rs) @ [(3500, IntroLambda, 0)]\<rparr>)))"
    by (rule tidy_initLevelData)
  then show ?case by (simp add: main_def Let_def tidy_def)
next
  case (new_level level s)
  show ?case by (rule tidy_initLevelData)
next
  case (player_move s nextX nextY)
  then show ?case by (simp add: tidy_move)
next
  case (cat_step s s')
  then show ?case by (simp add: tidy_moveCat)
next
  case (callback s e s')
  then show ?case by (simp add: tidy_fire)
qed


subsection \<open>Frames, and runs that neither pause nor restart\<close>

lemma idle_not_slowed:
  "\<not> isCatSlowed s \<Longrightarrow> \<not> isCatSlowed (idle t s) \<and> currentCatDelay (idle t s) = currentCatDelay s"
  by (simp add: idle_def Let_def)

lemma idle_slowed:
  assumes "currentGameState s = PLAYING" "isCatSlowed s" "0 < catSlowDurationTimer s"
  shows "(catSlowDurationTimer s \<le> t - lastTickTime s \<longrightarrow>
            \<not> isCatSlowed (idle t s) \<and> currentCatDelay (idle t s) = expiredDelay s)
       \<and> (t - lastTickTime s < catSlowDurationTimer s \<longrightarrow>
            currentGameState (idle t s) = PLAYING \<and> isCatSlowed (idle t s)
            \<and> 0 < catSlowDurationTimer (idle t s)
            \<and> catSlowDurationTimer (idle t s) + lastTickTime (idle t s)
                = catSlowDurationTimer s + lastTickTime s
            \<and> expiredDelay (idle t s) = expiredDelay s)"
  using assms by (auto simp: idle_def Let_def expiredDelay_def progressOf_def)

lemma keyboard_inPlay:
  assumes "inPlay (KeyPress now key)" "started s" "keyboard now key s = Inr s'"
  shows "s' = s \<or> (currentGameState s = PLAYING \<and> (\<exists>x y. s' = processPlayerMove x y s))"
  using assms unfolding keyboard_def Let_def started_def by (auto split: if_splits)

lemma specialKeyboard_cases:
  "specialKeyboard key s = s
   \<or> (currentGameState s = PLAYING \<and> (\<exists>x y. specialKeyboard key s = processPlayerMove x y s))"
  by (auto simp: specialKeyboard_def)

lemma enterTile_le: "length (cheeseLocations (enterTile x y s)) \<le> length (cheeseLocations s)"
  by (auto simp: enterTile_def Let_def split: option.splits dest: eraseCheeseAt_length)

lemma move_le:
  "length (cheeseLocations (processPlayerMove x y s)) \<le> length (cheeseLocations s)"
  by (simp add: processPlayerMove_eq enterTile_le)

lemma move_started: "started s \<Longrightarrow> started (processPlayerMove x y s)"
  using processPlayerMove_state [of x y s] by (auto simp: started_def)

lemma enterTile_quiet:
  assumes "length (cheeseLocations (enterTile x y s)) = length (cheeseLocations s)"
    and "isCatSlowed s \<or> powerupLocations s = []"
  shows "enterTile x y s = s\<lparr>playerX := x, playerY := y\<rparr>"
proof (cases "eraseCheeseAt x y (cheeseLocations s)")
  case None
  with assms(2) show ?thesis by (auto simp: enterTile_def collectPowerup_def Let_def)
next
  case (Some rest)
  then have "cheeseLocations (enterTile x y s) = rest"
    by (simp add: enterTile_def Let_def)
  with assms(1) eraseCheeseAt_length [OF Some] show ?thesis by simp
qed

lemma move_quiet:
  assumes "length (cheeseLocations (processPlayerMove x y s)) = length (cheeseLocations s)"
    and "isCatSlowed s \<or> powerupLocations s = []"
  shows "processPlayerMove x y s = s
       \<or> processPlayerMove x y s = s\<lparr>playerX := tunnelWrap x y, playerY := y\<rparr>"
  using assms enterTile_quiet [of "tunnelWrap x y" y s]
  by (simp add: processPlayerMove_eq split: if_splits)

lemma moveCat_effect:
  assumes "moveCat s = Inr s'"
  shows "currentCatDelay s' = currentCatDelay s \<and> isCatSlowed s' = isCatSlowed s
       \<and> powerupLocations s' = powerupLocations s \<and> cheeseLocations s' = cheeseLocations s
       \<and> initialCheeseCount s' = initialCheeseCount s
       \<and> (currentGameState s' = currentGameState s \<or> currentGameState s' = GAME_OVER)
       \<and> (currentGameState s' = PLAYING \<longrightarrow> score s' = score s)"
proof -
  have c: "currentCatDelay (caught u) = currentCatDelay u \<and> isCatSlowed (caught u) = isCatSlowed u
       \<and> powerupLocations (caught u) = powerupLocations u
       \<and> cheeseLocations (caught u) = cheeseLocations u
       \<and> initialCheeseCount (caught u) = initialCheeseCount u
       \<and> (currentGameState (caught u) = currentGameState u
          \<or> currentGameState (caught u) = GAME_OVER)
       \<and> (currentGameState (caught u) = PLAYING \<longrightarrow> score (caught u) = score u)" for u
    by (simp add: caught_def)
  from moveCat_returns [of s] assms
  consider "s' = s" | "s' = caught s" | r where "s' = caught (catTo r s)" by auto
  then show ?thesis
  proof cases
    case 1
    then show ?thesis by simp
  next
    case 2
    with c [of s] show ?thesis by simp
  next
    case 3
    with c [of "catTo r s"] show ?thesis by (simp add: catTo_def)
  qed
qed

lemma catTimer_effect:
  assumes "catTimer val s = Inr s'"
  shows "currentCatDelay s' = currentCatDelay s \<and> isCatSlowed s' = isCatSlowed s
       \<and> powerupLocations s' = powerupLocations s \<and> cheeseLocations s' = cheeseLocations s
       \<and> initialCheeseCount s' = initialCheeseCount s
       \<and> (currentGameState s' = currentGameState s \<or> currentGameState s' = GAME_OVER)
       \<and> (currentGameState s' = PLAYING \<longrightarrow> score s' = score s)"
proof -
  from catTimer_cases [of val s] assms
  consider "s' = s"
    | s1 where "isCatSlowed s \<Longrightarrow> s1 = s" "\<not> isCatSlowed s \<Longrightarrow> moveCat s = Inr s1"
        "s' = s1\<lparr>timers := timers s1 @ [(currentCatDelay s1, CatTimer, resetIdentifier s1)]\<rparr>"
    by (auto split: if_splits)
  then show ?thesis
  proof cases
    case 1
    then show ?thesis by simp
  next
    case 2
    show ?thesis
    proof (cases "isCatSlowed s")
      case True
      with 2 show ?thesis by simp
    next
      case False
      with 2 have "moveCat s = Inr s1" by simp
      from moveCat_effect [OF this] 2(3) show ?thesis by simp
    qed
  qed
qed

lemma catTimer_slowed:
  assumes "isCatSlowed s" "catTimer val s = Inr s'"
  shows "s' = s \<or> s' = s\<lparr>timers := timers s @ [(currentCatDelay s, CatTimer, resetIdentifier s)]\<rparr>"
  using assms by (auto simp: catTimer_def split: if_splits)

lemma idle_keeps:
  "cheeseLocations (idle t s) = cheeseLocations s"
  "powerupLocations (idle t s) = powerupLocations s"
  "initialCheeseCount (idle t s) = initialCheeseCount s"
  by (simp_all add: idle_def Let_def)

lemma fire_le:
  assumes "started s" "inPlay e" "fire e s = Inr s'"
  shows "started s' \<and> length (cheeseLocations s') \<le> length (cheeseLocations s)"
proof (cases e)
  case (KeyPress now key)
  with assms keyboard_inPlay [of now key s s'] show ?thesis
    by (auto simp: move_le move_started)
next
  case (SpecialPress key)
  with assms specialKeyboard_cases [of key s] show ?thesis
    by (auto simp: move_le move_started)
next
  case (Frame now)
  with assms show ?thesis by (auto simp: started_def idle_keeps)
next
  case (CatTick val)
  with assms catTimer_effect [of val s s'] show ?thesis by (auto simp: started_def)
next
  case (LevelTimer now v)
  with assms show ?thesis by simp
next
  case IntroTimer
  with assms show ?thesis by (auto simp: started_def introLambda_def)
qed

lemma run_le:
  assumes "started s" "\<forall>e\<in>set es. inPlay e" "run es s = Inr t"
  shows "length (cheeseLocations t) \<le> length (cheeseLocations s)"
  using assms
proof (induction es arbitrary: s)
  case Nil
  then show ?case by simp
next
  case (Cons e es)
  from Cons.prems(3) obtain s1 where f: "fire e s = Inr s1" and r: "run es s1 = Inr t"
    by (auto split: sum.splits)
  from fire_le [OF Cons.prems(1) _ f] Cons.prems(2)
  have "started s1" "length (cheeseLocations s1) \<le> length (cheeseLocations s)" by simp_all
  with Cons.IH [OF _ _ r] Cons.prems(2) show ?case by fastforce
qed

lemma move_expired:
  assumes "\<not> isCatSlowed s" "powerupLocations s = []"
    "length (cheeseLocations (processPlayerMove x y s)) = length (cheeseLocations s)"
  shows "\<not> isCatSlowed (processPlayerMove x y s) \<and> powerupLocations (processPlayerMove x y s) = []
       \<and> currentCatDelay (processPlayerMove x y s) = currentCatDelay s
       \<and> currentGameState (processPlayerMove x y s) = currentGameState s
       \<and> score (processPlayerMove x y s) = score s
       \<and> initialCheeseCount (processPlayerMove x y s) = initialCheeseCount s"
proof -
  from move_quiet [OF assms(3)] assms(2)
  have "processPlayerMove x y s = s
       \<or> processPlayerMove x y s = s\<lparr>playerX := tunnelWrap x y, playerY := y\<rparr>" by simp
  then show ?thesis
  proof
    assume "processPlayerMove x y s = s"
    with assms(1,2) show ?thesis by simp
  next
    assume "processPlayerMove x y s = s\<lparr>playerX := tunnelWrap x y, playerY := y\<rparr>"
    with assms(1,2) show ?thesis by simp
  qed
qed

lemma fire_playing:
  assumes "started s" "inPlay e" "fire e s = Inr s'" "currentGameState s' = PLAYING"
  shows "currentGameState s = PLAYING"
proof (cases e)
  case (KeyPress now key)
  with assms keyboard_inPlay [of now key s s'] show ?thesis by auto
next
  case (SpecialPress key)
  with assms specialKeyboard_cases [of key s] show ?thesis by auto
next
  case (Frame now)
  with assms show ?thesis by auto
next
  case (CatTick val)
  with assms catTimer_effect [of val s s'] show ?thesis by auto
next
  case (LevelTimer now v)
  with assms show ?thesis by simp
next
  case IntroTimer
  with assms show ?thesis by (auto simp: started_def introLambda_def)
qed

lemma playing_back:
  assumes "started s" "\<forall>e\<in>set es. inPlay e" "run es s = Inr t"
  shows "currentGameState t = PLAYING \<longrightarrow> currentGameState s = PLAYING"
  using assms
proof (induction es arbitrary: s)
  case Nil
  then show ?case by simp
next
  case (Cons e es)
  from Cons.prems(3) obtain s1 where f: "fire e s = Inr s1" and r: "run es s1 = Inr t"
    by (auto split: sum.splits)
  from Cons.prems(2) have e: "inPlay e" and es: "\<forall>e\<in>set es. inPlay e" by simp_all
  from fire_le [OF Cons.prems(1) e f] have st: "started s1" by simp
  from Cons.IH [OF st es r] fire_playing [OF Cons.prems(1) e f] show ?case by blast
qed

lemma expired_step:
  assumes "\<not> isCatSlowed s" "powerupLocations s = []" "started s" "inPlay e"
    "fire e s = Inr s'" "length (cheeseLocations s') = length (cheeseLocations s)"
  shows "\<not> isCatSlowed s' \<and> powerupLocations s' = [] \<and> currentCatDelay s' = currentCatDelay s
       \<and> (currentGameState s' = PLAYING \<longrightarrow>
            currentGameState s = PLAYING \<and> collectedFraction s' = collectedFraction s)"
proof (cases e)
  case (KeyPress now key)
  with assms(3-5) keyboard_inPlay [of now key s s']
  have "s' = s \<or> (\<exists>x y. s' = processPlayerMove x y s)" by auto
  with assms(1,2,6) move_expired [OF assms(1,2)] show ?thesis
    by (auto simp: collectedFraction_def progressOf_def)
next
  case (SpecialPress key)
  with assms(5) specialKeyboard_cases [of key s]
  have "s' = s \<or> (\<exists>x y. s' = processPlayerMove x y s)" by auto
  with assms(1,2,6) move_expired [OF assms(1,2)] show ?thesis
    by (auto simp: collectedFraction_def progressOf_def)
next
  case (Frame now)
  with assms idle_not_slowed [of s now] show ?thesis
    by (auto simp: idle_keeps collectedFraction_def progressOf_def)
next
  case (CatTick val)
  with assms catTimer_effect [of val s s'] show ?thesis
    by (auto simp: collectedFraction_def progressOf_def)
next
  case (LevelTimer now v)
  with assms show ?thesis by simp
next
  case IntroTimer
  with assms(3,5) have "s' = s" by (simp add: introLambda_def started_def)
  with assms(1,2) show ?thesis by simp
qed

lemma expired_run:
  assumes "\<not> isCatSlowed s" "powerupLocations s = []" "started s" "\<forall>e\<in>set es. inPlay e"
    "run es s = Inr t" "length (cheeseLocations t) = length (cheeseLocations s)"
  shows "\<not> isCatSlowed t \<and> currentCatDelay t = currentCatDelay s
       \<and> (currentGameState t = PLAYING \<longrightarrow> collectedFraction t = collectedFraction s)"
  using assms
proof (induction es arbitrary: s)
  case Nil
  then show ?case by simp
next
  case (Cons e es)
  from Cons.prems(5) obtain s1 where f: "fire e s = Inr s1" and r: "run es s1 = Inr t"
    by (auto split: sum.splits)
  from Cons.prems(4) have e: "inPlay e" and es: "\<forall>e\<in>set es. inPlay e" by simp_all
  from fire_le [OF Cons.prems(3) e f]
  have st: "started s1" and le: "length (cheeseLocations s1) \<le> length (cheeseLocations s)"
    by simp_all
  from run_le [OF st es r] le Cons.prems(6)
  have l1: "length (cheeseLocations s1) = length (cheeseLocations s)"
    and l2: "length (cheeseLocations t) = length (cheeseLocations s1)" by simp_all
  from expired_step [OF Cons.prems(1-3) e f l1]
  have x: "\<not> isCatSlowed s1" "powerupLocations s1 = []" "currentCatDelay s1 = currentCatDelay s"
    "currentGameState s1 = PLAYING \<longrightarrow> collectedFraction s1 = collectedFraction s"
    by simp_all
  from Cons.IH [OF x(1,2) st es r l2]
  have y: "\<not> isCatSlowed t" "currentCatDelay t = currentCatDelay s1"
    "currentGameState t = PLAYING \<longrightarrow> collectedFraction t = collectedFraction s1"
    by simp_all
  have "currentGameState t = PLAYING \<longrightarrow> currentGameState s1 = PLAYING"
    using playing_back [OF st es r] .
  with x y show ?case by simp
qed

lemma expiredDelay_tidy: "tidy s \<Longrightarrow> expiredDelay s = delayFor (collectedFraction s)"
  by (auto simp: tidy_def expiredDelay_def collectedFraction_def delayFor_def truncToInt_def config)

lemma slowed_step:
  assumes "tidy s" "currentGameState s = PLAYING" "isCatSlowed s" "inPlay e"
    "fire e s = Inr s'" "length (cheeseLocations s') = length (cheeseLocations s)"
  shows "(tidy s' \<and> currentGameState s' = PLAYING \<and> isCatSlowed s'
          \<and> catSlowDurationTimer s' + lastTickTime s' = catSlowDurationTimer s + lastTickTime s
          \<and> collectedFraction s' = collectedFraction s
          \<and> (\<forall>now. e = Frame now \<longrightarrow> now < catSlowDurationTimer s + lastTickTime s))
       \<or> (\<not> isCatSlowed s' \<and> powerupLocations s' = []
          \<and> currentCatDelay s' = delayFor (collectedFraction s)
          \<and> collectedFraction s' = collectedFraction s)"
proof -
  from assms(1,3) have pw: "powerupLocations s = []" and pos: "0 < catSlowDurationTimer s"
    by (simp_all add: tidy_def)
  have same: ?thesis if "s' = s" "\<forall>now. e \<noteq> Frame now"
    using that assms(1-3) by simp
  have move: ?thesis if "s' = processPlayerMove x y s" "\<forall>now. e \<noteq> Frame now" for x y
  proof -
    from move_quiet [of x y s] assms(3,6) that(1)
    have "s' = s \<or> s' = s\<lparr>playerX := tunnelWrap x y, playerY := y\<rparr>" by simp
    then show ?thesis
    proof
      assume "s' = s" then show ?thesis using that(2) by (rule same)
    next
      assume "s' = s\<lparr>playerX := tunnelWrap x y, playerY := y\<rparr>"
      with assms(1-3) that(2) show ?thesis
        by (simp add: tidy_def collectedFraction_def progressOf_def)
    qed
  qed
  show ?thesis
  proof (cases e)
    case (KeyPress now key)
    then have nf: "\<forall>now. e \<noteq> Frame now" by simp
    from KeyPress assms(2,4,5) keyboard_inPlay [of now key s s']
    have "s' = s \<or> (\<exists>x y. s' = processPlayerMove x y s)" by (auto simp: started_def)
    with same move nf show ?thesis by blast
  next
    case (SpecialPress key)
    then have nf: "\<forall>now. e \<noteq> Frame now" by simp
    from SpecialPress assms(5) specialKeyboard_cases [of key s]
    have "s' = s \<or> (\<exists>x y. s' = processPlayerMove x y s)" by auto
    with same move nf show ?thesis by blast
  next
    case (Frame now)
    with assms(5) have s': "s' = idle now s" by simp
    note st = idle_slowed [OF assms(2,3) pos, of now]
    show ?thesis
    proof (cases "catSlowDurationTimer s \<le> now - lastTickTime s")
      case True
      with st have "\<not> isCatSlowed s'" "currentCatDelay s' = expiredDelay s"
        unfolding s' by simp_all
      moreover have "powerupLocations s' = []"
        unfolding s' using pw by (simp add: idle_keeps)
      moreover have "collectedFraction s' = collectedFraction s"
        unfolding s' by (simp add: collectedFraction_def progressOf_def idle_keeps)
      ultimately show ?thesis using expiredDelay_tidy [OF assms(1)] by simp
    next
      case False
      with st have i: "currentGameState s' = PLAYING" "isCatSlowed s'"
        "catSlowDurationTimer s' + lastTickTime s' = catSlowDurationTimer s + lastTickTime s"
        unfolding s' by simp_all
      have c: "collectedFraction s' = collectedFraction s"
        unfolding s' by (simp add: collectedFraction_def progressOf_def idle_keeps)
      have "tidy s'" unfolding s' using assms(1) by (rule tidy_idle)
      with i c False Frame show ?thesis by simp
    qed
  next
    case (CatTick val)
    then have nf: "\<forall>now. e \<noteq> Frame now" by simp
    from CatTick assms(5) catTimer_slowed [OF assms(3), of val s']
    have "s' = s \<or> s' = s\<lparr>timers := timers s @ [(currentCatDelay s, CatTimer, resetIdentifier s)]\<rparr>"
      by simp
    then show ?thesis
    proof
      assume "s' = s" then show ?thesis using nf by (rule same)
    next
      assume "s' = s\<lparr>timers := timers s @ [(currentCatDelay s, CatTimer, resetIdentifier s)]\<rparr>"
      with assms(1-3) nf show ?thesis
        by (simp add: tidy_def collectedFraction_def progressOf_def)
    qed
  next
    case (LevelTimer now v)
    with assms(4) show ?thesis by simp
  next
    case IntroTimer
    then have nf: "\<forall>now. e \<noteq> Frame now" by simp
    from IntroTimer assms(2,5) have "s' = s" by (simp add: introLambda_def)
    then show ?thesis using nf by (rule same)
  qed
qed

lemma slowed_run:
  assumes "tidy s" "currentGameState s = PLAYING" "isCatSlowed s" "\<forall>e\<in>set es. inPlay e"
    "run es s = Inr t" "length (cheeseLocations t) = length (cheeseLocations s)"
    "Frame now \<in> set es" "catSlowDurationTimer s + lastTickTime s \<le> now"
  shows "\<not> isCatSlowed t \<and> currentCatDelay t = delayFor (collectedFraction s)
       \<and> (currentGameState t = PLAYING \<longrightarrow> collectedFraction t = collectedFraction s)"
  using assms
proof (induction es arbitrary: s)
  case Nil
  then show ?case by simp
next
  case (Cons e es)
  from Cons.prems(5) obtain s1 where f: "fire e s = Inr s1" and r: "run es s1 = Inr t"
    by (auto split: sum.splits)
  from Cons.prems(4) have e: "inPlay e" and es: "\<forall>e\<in>set es. inPlay e" by simp_all
  have st0: "started s" using Cons.prems(2) by (simp add: started_def)
  from fire_le [OF st0 e f]
  have st: "started s1" and le: "length (cheeseLocations s1) \<le> length (cheeseLocations s)"
    by simp_all
  from run_le [OF st es r] le Cons.prems(6)
  have l1: "length (cheeseLocations s1) = length (cheeseLocations s)"
    and l2: "length (cheeseLocations t) = length (cheeseLocations s1)" by simp_all
  from slowed_step [OF Cons.prems(1-3) e f l1]
  consider
    (slowed) "tidy s1" "currentGameState s1 = PLAYING" "isCatSlowed s1"
      "catSlowDurationTimer s1 + lastTickTime s1 = catSlowDurationTimer s + lastTickTime s"
      "collectedFraction s1 = collectedFraction s"
      "\<forall>now. e = Frame now \<longrightarrow> now < catSlowDurationTimer s + lastTickTime s"
    | (expired) "\<not> isCatSlowed s1" "powerupLocations s1 = []"
      "currentCatDelay s1 = delayFor (collectedFraction s)"
      "collectedFraction s1 = collectedFraction s"
    by blast
  then show ?case
  proof cases
    case slowed
    from slowed(6) Cons.prems(8) have "e \<noteq> Frame now" by auto
    with Cons.prems(7) have in_es: "Frame now \<in> set es" by simp
    from Cons.prems(8) slowed(4) have "catSlowDurationTimer s1 + lastTickTime s1 \<le> now" by simp
    from Cons.IH [OF slowed(1-3) es r l2 in_es this] slowed(5) show ?thesis by simp
  next
    case expired
    from expired_run [OF expired(1,2) st es r l2] expired(3,4) show ?thesis by simp
  qed
qed

lemma frames_paused:
  assumes "currentGameState s = PAUSED"
  shows "currentGameState (frames ts s) = PAUSED \<and> isCatSlowed (frames ts s) = isCatSlowed s
       \<and> catSlowDurationTimer (frames ts s) = catSlowDurationTimer s
       \<and> currentCatDelay (frames ts s) = currentCatDelay s"
  using assms
proof (induction ts arbitrary: s)
  case Nil
  then show ?case by simp
next
  case (Cons t ts)
  have i: "currentGameState (idle t s) = PAUSED" "isCatSlowed (idle t s) = isCatSlowed s"
    "catSlowDurationTimer (idle t s) = catSlowDurationTimer s"
    "currentCatDelay (idle t s) = currentCatDelay s"
    using Cons.prems by (simp_all add: idle_def Let_def)
  from Cons.IH [OF i(1)] i show ?case by simp
qed

subsection \<open>Out of the effect, the delay is on the curve\<close>

lemma delayFor_zero: "delayFor 0 = INITIAL_CAT_DELAY_MS"
  by (simp add: delayFor_def truncToInt_def config)

lemma onCurve_cong:
  assumes "currentGameState s' = currentGameState s" "isCatSlowed s' = isCatSlowed s"
    "currentCatDelay s' = currentCatDelay s" "score s' = score s"
    "initialCheeseCount s' = initialCheeseCount s"
  shows "onCurve s' = onCurve s"
  by (simp add: onCurve_def collectedFraction_def progressOf_def assms)

lemma onCurve_initLevelData: "onCurve (initLevelData s)"
  by (simp add: onCurve_def collectedFraction_def progressOf_def delayFor_zero)

lemma onCurve_collectPowerup: "onCurve s \<Longrightarrow> onCurve (collectPowerup s)"
  by (auto simp: onCurve_def collectPowerup_def collectedFraction_def progressOf_def
      split: option.splits)

lemma onCurve_nextLevel: "onCurve (nextLevel s)"
  using nextLevel_state [of s] by (auto simp: onCurve_def)

lemma onCurve_enterTile:
  assumes "tidy s" "onCurve s"
  shows "onCurve (enterTile x y s)"
proof -
  let ?s1 = "s\<lparr>playerX := x, playerY := y\<rparr>"
  have c1: "onCurve ?s1" using assms(2) onCurve_cong [of ?s1 s] by simp
  show ?thesis
  proof (cases "eraseCheeseAt x y (cheeseLocations s)")
    case None
    with onCurve_collectPowerup [OF c1] show ?thesis by (simp add: enterTile_def)
  next
    case (Some rest)
    let ?s2 = "?s1\<lparr>cheeseLocations := rest, score := score ?s1 + 1\<rparr>"
    let ?s3 = "(if \<not> isCatSlowed ?s2 \<and> initialCheeseCount ?s2 > 0
                       then ?s2\<lparr>currentCatDelay := delayFor (progressOf ?s2),
                               normalCatDelayBeforeSlowdown := delayFor (progressOf ?s2)\<rparr>
                       else ?s2)"
    have c3: "onCurve ?s3"
    proof (cases "isCatSlowed s")
      case True
      then show ?thesis by (simp add: onCurve_def)
    next
      case free: False
      show ?thesis
      proof (cases "initialCheeseCount s > 0")
        case True
        with free show ?thesis
          by (simp add: onCurve_def collectedFraction_def progressOf_def)
      next
        case False
        with free assms(1) have "currentCatDelay s = INITIAL_CAT_DELAY_MS"
          by (simp add: tidy_def)
        with free False show ?thesis
          by (simp add: onCurve_def collectedFraction_def delayFor_zero)
      qed
    qed
    have e: "enterTile x y s = (if cheeseLocations ?s3 = [] then nextLevel ?s3 else collectPowerup ?s3)"
      using Some by (simp add: enterTile_def Let_def)
    from onCurve_nextLevel [of ?s3] onCurve_collectPowerup [OF c3] show ?thesis
      unfolding e by (simp split: if_splits)
  qed
qed

lemma onCurve_move: "tidy s \<Longrightarrow> onCurve s \<Longrightarrow> onCurve (processPlayerMove x y s)"
  by (simp add: processPlayerMove_eq onCurve_enterTile)

lemma onCurve_caught: "onCurve s \<Longrightarrow> onCurve (caught s)"
  by (simp add: onCurve_def caught_def collectedFraction_def progressOf_def)

lemma onCurve_catTo: "onCurve (catTo r s) = onCurve s"
  by (simp add: onCurve_def catTo_def collectedFraction_def progressOf_def)

lemma onCurve_moveCat: "onCurve s \<Longrightarrow> moveCat s = Inr s' \<Longrightarrow> onCurve s'"
  using moveCat_returns [of s] by (auto simp: onCurve_caught onCurve_catTo)

lemma onCurve_catTimer:
  assumes "onCurve s" "catTimer val s = Inr s'"
  shows "onCurve s'"
proof -
  from catTimer_cases [of val s] assms(2)
  consider "s' = s"
    | s1 where "isCatSlowed s \<Longrightarrow> s1 = s" "\<not> isCatSlowed s \<Longrightarrow> moveCat s = Inr s1"
        "s' = s1\<lparr>timers := timers s1 @ [(currentCatDelay s1, CatTimer, resetIdentifier s1)]\<rparr>"
    by (auto split: if_splits)
  then show ?thesis
  proof cases
    case 1
    with assms show ?thesis by simp
  next
    case 2
    have "onCurve s1"
      using 2(1,2) assms(1) onCurve_moveCat [of s s1] by (cases "isCatSlowed s") auto
    with 2(3) onCurve_cong [of s' s1] show ?thesis by simp
  qed
qed

lemma onCurve_idle:
  assumes "tidy s" "onCurve s"
  shows "onCurve (idle t s)"
proof (cases "currentGameState s = PLAYING \<and> isCatSlowed s")
  case True
  with assms(1) have pos: "0 < catSlowDurationTimer s" by (simp add: tidy_def)
  note st = idle_slowed [OF _ _ pos, of t]
  show ?thesis
  proof (cases "catSlowDurationTimer s \<le> t - lastTickTime s")
    case expired: True
    with st True have "currentCatDelay (idle t s) = expiredDelay s" by simp
    moreover have "collectedFraction (idle t s) = collectedFraction s"
      by (simp add: collectedFraction_def progressOf_def idle_keeps)
    ultimately show ?thesis using expiredDelay_tidy [OF assms(1)] by (simp add: onCurve_def)
  next
    case False
    with st True have "isCatSlowed (idle t s)" by simp
    then show ?thesis by (simp add: onCurve_def)
  qed
next
  case False
  then have "isCatSlowed (idle t s) = isCatSlowed s" "currentCatDelay (idle t s) = currentCatDelay s"
    by (auto simp: idle_def Let_def)
  with assms(2) onCurve_cong [of "idle t s" s] show ?thesis by (simp add: idle_keeps)
qed

lemma onCurve_resetGame: "resetGame now s = Inr s' \<Longrightarrow> onCurve s'"
proof -
  assume r: "resetGame now s = Inr s'"
  let ?s1 = "s\<lparr>resetIdentifier := resetIdentifier s + 1, timerActive := False,
                 currentLevel := 1, totalScore := 0\<rparr>"
  let ?s2 = "initLevelData (initMaze (currentLevel ?s1) ?s1)"
  let ?s3 = "?s2\<lparr>currentGameState := PLAYING, timerActive := True, lastTickTime := now\<rparr>"
  have "onCurve ?s3"
    by (simp add: onCurve_def collectedFraction_def progressOf_def delayFor_zero)
  moreover from r have "catTimer (resetIdentifier ?s3) ?s3 = Inr s'"
    unfolding resetGame_def Let_def .
  ultimately show ?thesis by (rule onCurve_catTimer)
qed

lemma onCurve_nextLevelLambda: "nextLevelLambda now v s = Inr s' \<Longrightarrow> onCurve s'"
proof -
  assume r: "nextLevelLambda now v s = Inr s'"
  let ?s1 = "s\<lparr>resetIdentifier := resetIdentifier s + 1\<rparr>"
  let ?s2 = "initLevelData (initMaze v ?s1)"
  let ?s3 = "?s2\<lparr>currentGameState := PLAYING, timerActive := True, lastTickTime := now\<rparr>"
  have "onCurve ?s3"
    by (simp add: onCurve_def collectedFraction_def progressOf_def delayFor_zero)
  moreover from r have "catTimer (resetIdentifier ?s3) ?s3 = Inr s'"
    unfolding nextLevelLambda_def Let_def .
  ultimately show ?thesis by (rule onCurve_catTimer)
qed

lemma keyboard_cases_state:
  assumes "keyboard now key s = Inr s'"
  shows "s' = s \<or> s' = s\<lparr>currentGameState := START_MENU\<rparr> \<or> resetGame now s = Inr s'
       \<or> (currentGameState s = PLAYING
           \<and> s' = s\<lparr>currentGameState := PAUSED, timerActive := False\<rparr>)
       \<or> (currentGameState s = PAUSED
           \<and> catTimer (resetIdentifier s + 1)
                (s\<lparr>currentGameState := PLAYING, timerActive := True, lastTickTime := now,
                   resetIdentifier := resetIdentifier s + 1\<rparr>) = Inr s')
       \<or> (\<exists>nextX nextY. s' = processPlayerMove nextX nextY s)"
  using assms unfolding keyboard_def Let_def by (auto split: if_splits)

lemma onCurve_keyboard:
  assumes "tidy s" "onCurve s" "keyboard now key s = Inr s'"
  shows "onCurve s'"
proof -
  from keyboard_cases_state [OF assms(3)]
  consider "s' = s" | "s' = s\<lparr>currentGameState := START_MENU\<rparr>" | "resetGame now s = Inr s'"
    | "currentGameState s = PLAYING" "s' = s\<lparr>currentGameState := PAUSED, timerActive := False\<rparr>"
    | "currentGameState s = PAUSED"
      "catTimer (resetIdentifier s + 1)
            (s\<lparr>currentGameState := PLAYING, timerActive := True, lastTickTime := now,
               resetIdentifier := resetIdentifier s + 1\<rparr>) = Inr s'"
    | nextX nextY where "s' = processPlayerMove nextX nextY s"
    by blast
  then show ?thesis
  proof cases
    case 1
    with assms(2) show ?thesis by simp
  next
    case 2
    then show ?thesis by (simp add: onCurve_def)
  next
    case 3
    then show ?thesis by (rule onCurve_resetGame)
  next
    case 4
    with assms(2) show ?thesis
      by (simp add: onCurve_def collectedFraction_def progressOf_def)
  next
    case 5
    with assms(2)
    have "onCurve (s\<lparr>currentGameState := PLAYING, timerActive := True, lastTickTime := now,
               resetIdentifier := resetIdentifier s + 1\<rparr>)"
      by (simp add: onCurve_def collectedFraction_def progressOf_def)
    from onCurve_catTimer [OF this 5(2)] show ?thesis .
  next
    case 6
    with assms(1,2) show ?thesis by (simp add: onCurve_move)
  qed
qed

lemma onCurve_fire: "tidy s \<Longrightarrow> onCurve s \<Longrightarrow> fire e s = Inr s' \<Longrightarrow> onCurve s'"
proof (cases e)
  case (KeyPress now key)
  assume "tidy s" "onCurve s" "fire e s = Inr s'"
  with KeyPress show ?thesis by (simp add: onCurve_keyboard)
next
  case (SpecialPress key)
  assume "tidy s" "onCurve s" "fire e s = Inr s'"
  with SpecialPress specialKeyboard_cases [of key s] show ?thesis
    by (auto simp: onCurve_move)
next
  case (Frame now)
  assume "tidy s" "onCurve s" "fire e s = Inr s'"
  with Frame show ?thesis by (auto simp: onCurve_idle)
next
  case (CatTick val)
  assume "tidy s" "onCurve s" "fire e s = Inr s'"
  with CatTick show ?thesis by (auto simp: onCurve_catTimer)
next
  case (LevelTimer now v)
  assume "tidy s" "onCurve s" "fire e s = Inr s'"
  with LevelTimer show ?thesis by (auto simp: onCurve_nextLevelLambda)
next
  case IntroTimer
  assume "tidy s" "onCurve s" "fire e s = Inr s'"
  with IntroTimer have "s' = s \<or> s' = s\<lparr>currentGameState := START_MENU\<rparr>"
    by (auto simp: introLambda_def)
  with \<open>onCurve s\<close> show ?thesis by (auto simp: onCurve_def)
qed

lemma onCurve_reachable: "s \<in> reachable \<Longrightarrow> onCurve s"
proof (induction rule: reachable.induct)
  case (at_start rs now)
  show ?case
    by (simp add: main_def Let_def onCurve_def collectedFraction_def progressOf_def delayFor_zero)
next
  case (new_level level s)
  show ?case by (rule onCurve_initLevelData)
next
  case (player_move s nextX nextY)
  then show ?case by (simp add: onCurve_move tidy_reachable)
next
  case (cat_step s s')
  then show ?case by (simp add: onCurve_moveCat)
next
  case (callback s e s')
  then show ?case using onCurve_fire [of s e s'] by (simp add: tidy_reachable)
qed

subsection \<open>A session with the effect active\<close>

lemma slow_cheese_loop:
  "placeCheeseLoop layout1 0 0 [] (\<lambda>i. slowDraws ! (i mod 26))
     = (12, 12, [(1, 3), (2, 3), (3, 3), (5, 1), (6, 1), (7, 1), (8, 1), (9, 1), (10, 1), (11, 1),
        (12, 1), (13, 1)], (\<lambda>i. slowDraws ! ((24 + i) mod 26)))"
  by (simp add: slowDraws_def
      placeCheeseLoop.simps Let_def tileAt_def layout1_def startTile_def
      maxAttempts_def config add.assoc)

lemma slow_powerup_loop:
  "placePowerupLoop layout1 [(1, 3), (2, 3), (3, 3), (5, 1), (6, 1), (7, 1), (8, 1), (9, 1),
        (10, 1), (11, 1), (12, 1), (13, 1)] 0 0 [] (\<lambda>i. slowDraws ! ((24 + i) mod 26))
     = (1, 1, [\<lparr>pw_x = 1, pw_y = 2, pw_type = TILE_SLOW_POWERUP\<rparr>], (\<lambda>i. slowDraws ! (i mod 26)))"
  by (simp add: slowDraws_def
      placePowerupLoop.simps Let_def tileAt_def layout1_def startTile_def
      maxAttempts_def config add.assoc)

lemma slow_level:
  assumes "maze s = layout1" "rands s = (\<lambda>i. slowDraws ! (i mod 26))"
  shows "initLevelData s =
     s\<lparr>score := 0, currentCatDelay := 350,
       cheeseLocations := [(1, 3), (2, 3), (3, 3), (5, 1), (6, 1), (7, 1), (8, 1), (9, 1), (10, 1),
         (11, 1), (12, 1), (13, 1)],
       powerupLocations := [\<lparr>pw_x = 1, pw_y = 2, pw_type = TILE_SLOW_POWERUP\<rparr>],
       initialCheeseCount := 12, playerX := 1, playerY := 1, catX := 11, catY := 11,
       isCatSlowed := False, catSlowDurationTimer := 0, normalCatDelayBeforeSlowdown := 350,
       rands := (\<lambda>i. slowDraws ! (i mod 26))\<rparr>"
  by (simp add: initLevelData_def assms slow_cheese_loop slow_powerup_loop config)

lemma slowedFresh_moves:
  "slowedFresh = processPlayerMove 1 2 (initLevelData (initMaze 1 slowSeed))"
proof -
  have "maze (initMaze 1 slowSeed) = layout1"
    "rands (initMaze 1 slowSeed) = (\<lambda>i. slowDraws ! (i mod 26))"
    by (simp_all add: initMaze_def slowSeed_def)
  from slow_level [OF this] show ?thesis
    by (simp add: slowedFresh_def initMaze_def slowSeed_def wallAhead_def processPlayerMove_def
        collectPowerup_def Let_def tileAt_def layout1_def config)
qed

lemma slowedFresh_reachable: "slowedFresh \<in> reachable"
  unfolding slowedFresh_moves by (intro reachable.player_move reachable.new_level)

lemma slowedPlay_moves:
  "slowedPlay = processPlayerMove 3 3 (processPlayerMove 2 3 (processPlayerMove 1 3 slowedFresh))"
  by (simp add: slowedPlay_def slowedFresh_def processPlayerMove_def collectPowerup_def Let_def
      tileAt_def layout1_def config)

lemma slowedPlay_reachable: "slowedPlay \<in> reachable"
  unfolding slowedPlay_moves by (intro reachable.player_move slowedFresh_reachable)

text \<open>
  Why a run must not restart the level: a restart places a power-up again.  From the
  session with the effect just begun, a frame past its end, the reset key, and one step
  down onto the new power-up: no cheese is gone, and the effect is active once more.
\<close>

lemma restart_renews_effect:
  "slowedFresh \<in> reachable \<and> currentGameState slowedFresh = PLAYING \<and> isCatSlowed slowedFresh
   \<and> catSlowDurationTimer slowedFresh < 6000 - lastTickTime slowedFresh
   \<and> (\<exists>t. run [Frame 6000, KeyPress 7000 CHR ''r'', KeyPress 7001 CHR ''s''] slowedFresh = Inr t
          \<and> cheeseLocations t = cheeseLocations slowedFresh
          \<and> isCatSlowed t \<and> currentCatDelay t = 450)"
proof -
  let ?s1 = "idle 6000 slowedFresh"
  let ?s2 = "?s1\<lparr>resetIdentifier := resetIdentifier ?s1 + 1, timerActive := False,
                 currentLevel := 1, totalScore := 0\<rparr>"
  let ?s3 = "(initLevelData (initMaze 1 ?s2))\<lparr>currentGameState := PLAYING, timerActive := True,
      lastTickTime := 7000\<rparr>"
  have f: "currentGameState slowedFresh = PLAYING" "isCatSlowed slowedFresh"
    "catSlowDurationTimer slowedFresh < 6000 - lastTickTime slowedFresh"
    by (simp_all add: slowedFresh_def)
  have p: "currentGameState ?s1 = PLAYING" by (simp add: f)
  have k: "keyboard 7000 CHR ''r'' ?s1 = catTimer (resetIdentifier ?s3) ?s3"
    using p by (simp add: keyboard_def isKey_def ESCAPE_KEY_def resetGame_def Let_def)
  have "maze (initMaze 1 ?s2) = layout1" "rands (initMaze 1 ?s2) = (\<lambda>i. slowDraws ! (i mod 26))"
    by (simp_all add: initMaze_def slowedFresh_def idle_def Let_def)
  note lv = slow_level [OF this]
  have g: "maze ?s3 = layout1" "playerX ?s3 = 1" "playerY ?s3 = 1" "\<not> isCatSlowed ?s3"
    "cheeseLocations ?s3 = cheeseLocations slowedFresh"
    "powerupLocations ?s3 = [\<lparr>pw_x = 1, pw_y = 2, pw_type = TILE_SLOW_POWERUP\<rparr>]"
    "currentCatDelay ?s3 = 350"
    unfolding lv by (simp_all add: slowedFresh_def)
  from level_start [OF refl, where ?s0.0 = "initMaze 1 ?s2" and now = 7000]
  obtain s4 where c: "catTimer (resetIdentifier ?s3) ?s3 = Inr s4"
    and st: "currentGameState s4 = PLAYING" by blast
  from catTimer_effect [OF c] catTimer_frame(2,3) [OF c] g
  have h: "maze s4 = layout1" "playerX s4 = 1" "playerY s4 = 1" "\<not> isCatSlowed s4"
    "cheeseLocations s4 = cheeseLocations slowedFresh"
    "powerupLocations s4 = [\<lparr>pw_x = 1, pw_y = 2, pw_type = TILE_SLOW_POWERUP\<rparr>]"
    "currentCatDelay s4 = 350"
    by (simp_all add: playerPos_def)
  let ?t = "processPlayerMove 1 2 s4"
  have k2: "keyboard 7001 CHR ''s'' s4 = Inr ?t"
    using st h(2,3) by (simp add: keyboard_def isKey_def ESCAPE_KEY_def)
  have r: "run [Frame 6000, KeyPress 7000 CHR ''r'', KeyPress 7001 CHR ''s''] slowedFresh = Inr ?t"
    using k c k2 by simp
  have "cheeseLocations ?t = cheeseLocations slowedFresh \<and> isCatSlowed ?t
      \<and> currentCatDelay ?t = 450"
    using h by (simp add: processPlayerMove_def collectPowerup_def Let_def tileAt_def layout1_def
        slowedFresh_def config)
  with r f slowedFresh_reachable show ?thesis by blast
qed

subsection \<open>Expiry\<close>

text \<open>
  C5, as stated, fails while the game is paused: \<open>idle\<close> ages the effect only in state
  \<open>PLAYING\<close>.  Paused with 3000 ms of the effect left, two frames that together span
  8000 ms leave the effect on and the delay at 450, where the curve would give 250.
\<close>

theorem slow_effect_outlasts_pause_counterexample:
  "isCatSlowed pausedSlowed
   \<and> catSlowDurationTimer pausedSlowed < 9000 - lastTickTime pausedSlowed
   \<and> score (frames [5000, 9000] pausedSlowed) = score pausedSlowed
   \<and> isCatSlowed (frames [5000, 9000] pausedSlowed)
   \<and> currentCatDelay (frames [5000, 9000] pausedSlowed) = 450
   \<and> delayFor (progressOf (frames [5000, 9000] pausedSlowed)) = 250"
  by (simp add: pausedSlowed_def idle_def Let_def progressOf_def delayFor_quarter)

text \<open>
  C5, amended.  For every session the game can reach: in state \<open>PLAYING\<close> with the effect
  active, after any run of events that neither pause nor restart the level, during which
  no cheese is collected and one of whose frames reads the clock later than the last tick
  time plus the time left on the effect, the effect is over and the delay is the curve's
  value at the collected fraction, whatever delay was saved when the effect began; that
  fraction is not negative, it is 0 when no cheese was placed for the level, and it is
  still the collected fraction at the end of the run if the game is then being played.
  Whenever the game is in play, in state \<open>PLAYING\<close> or \<open>PAUSED\<close>, and no effect is active,
  the delay is the curve's value at the collected fraction.  Frames received in state
  \<open>PAUSED\<close> leave the effect, the time left on it and the delay as they are.
\<close>

theorem slow_effect_expiry_recomputes_delay:
  "(s \<in> reachable \<and> currentGameState s = PLAYING \<and> isCatSlowed s
      \<and> run es s = Inr t \<and> (\<forall>e\<in>set es. inPlay e)
      \<and> cheeseLocations t = cheeseLocations s
      \<and> Frame now \<in> set es \<and> catSlowDurationTimer s < now - lastTickTime s
    \<longrightarrow> \<not> isCatSlowed t
        \<and> currentCatDelay t = delayFor (collectedFraction s)
        \<and> 0 \<le> collectedFraction s
        \<and> (currentGameState t = PLAYING \<longrightarrow> collectedFraction t = collectedFraction s))
   \<and> (u \<in> reachable \<and> (currentGameState u = PLAYING \<or> currentGameState u = PAUSED)
      \<and> \<not> isCatSlowed u
    \<longrightarrow> currentCatDelay u = delayFor (collectedFraction u) \<and> 0 \<le> collectedFraction u)
   \<and> (currentGameState p = PAUSED
    \<longrightarrow> isCatSlowed (frames ts p) = isCatSlowed p
        \<and> catSlowDurationTimer (frames ts p) = catSlowDurationTimer p
        \<and> currentCatDelay (frames ts p) = currentCatDelay p)"
proof (intro conjI impI)
  assume h: "s \<in> reachable \<and> currentGameState s = PLAYING \<and> isCatSlowed s
      \<and> run es s = Inr t \<and> (\<forall>e\<in>set es. inPlay e)
      \<and> cheeseLocations t = cheeseLocations s
      \<and> Frame now \<in> set es \<and> catSlowDurationTimer s < now - lastTickTime s"
  then have t: "tidy s" by (simp add: tidy_reachable)
  from h have d: "catSlowDurationTimer s + lastTickTime s \<le> now"
    and l: "length (cheeseLocations t) = length (cheeseLocations s)" by simp_all
  from h slowed_run [OF t _ _ _ _ l _ d, of es]
  have r: "\<not> isCatSlowed t \<and> currentCatDelay t = delayFor (collectedFraction s)
       \<and> (currentGameState t = PLAYING \<longrightarrow> collectedFraction t = collectedFraction s)"
    by blast
  from r show "\<not> isCatSlowed t" by simp
  from r show "currentCatDelay t = delayFor (collectedFraction s)" by simp
  from t show "0 \<le> collectedFraction s"
    by (simp add: tidy_def collectedFraction_def progressOf_def)
  from r show "collectedFraction t = collectedFraction s" if "currentGameState t = PLAYING"
    using that by simp
next
  assume h: "u \<in> reachable \<and> (currentGameState u = PLAYING \<or> currentGameState u = PAUSED)
      \<and> \<not> isCatSlowed u"
  with onCurve_reachable [of u] show "currentCatDelay u = delayFor (collectedFraction u)"
    by (simp add: onCurve_def)
  from h tidy_reachable [of u] show "0 \<le> collectedFraction u"
    by (simp add: tidy_def collectedFraction_def progressOf_def)
next
  assume p: "currentGameState p = PAUSED"
  from frames_paused [OF p, of ts]
  show "isCatSlowed (frames ts p) = isCatSlowed p"
    "catSlowDurationTimer (frames ts p) = catSlowDurationTimer p"
    "currentCatDelay (frames ts p) = currentCatDelay p" by simp_all
qed

theorem slow_effect_expiry_recomputes_delay_witness:
  "slowedPlay \<in> reachable \<and> currentGameState slowedPlay = PLAYING \<and> isCatSlowed slowedPlay
   \<and> catSlowDurationTimer slowedPlay < 6000 - lastTickTime slowedPlay
   \<and> normalCatDelayBeforeSlowdown slowedPlay = 350 \<and> currentCatDelay slowedPlay = 450
   \<and> list_all inPlay
        [Frame 2000, SpecialPress GLUT_KEY_UP, CatTick 1, KeyPress 5000 CHR ''s'', Frame 6000]
   \<and> (\<exists>t. run [Frame 2000, SpecialPress GLUT_KEY_UP, CatTick 1, KeyPress 5000 CHR ''s'',
               Frame 6000] slowedPlay = Inr t
          \<and> cheeseLocations t = cheeseLocations slowedPlay
          \<and> currentGameState t = PLAYING
          \<and> \<not> isCatSlowed t \<and> currentCatDelay t = 250 \<and> collectedFraction t = 1 / 4)
   \<and> delayFor (collectedFraction slowedPlay) = 250
   \<and> idle 6000 slowedPlay \<in> reachable
   \<and> currentGameState (idle 6000 slowedPlay) = PLAYING
   \<and> \<not> isCatSlowed (idle 6000 slowedPlay)
   \<and> normalCatDelayBeforeSlowdown (idle 6000 slowedPlay) = 350
   \<and> currentCatDelay (idle 6000 slowedPlay) = 250
   \<and> currentGameState pausedSlowed = PAUSED
   \<and> isCatSlowed (frames [5000, 9000] pausedSlowed)
   \<and> catSlowDurationTimer (frames [5000, 9000] pausedSlowed) = 3000
   \<and> currentCatDelay (frames [5000, 9000] pausedSlowed) = 450"
proof -
  let ?es = "[Frame 2000, SpecialPress GLUT_KEY_UP, CatTick 1, KeyPress 5000 CHR ''s'',
               Frame 6000]"
  let ?u = "idle 6000 slowedPlay"
  have f: "currentGameState slowedPlay = PLAYING" "isCatSlowed slowedPlay"
    "catSlowDurationTimer slowedPlay < 6000 - lastTickTime slowedPlay"
    "normalCatDelayBeforeSlowdown slowedPlay = 350" "currentCatDelay slowedPlay = 450"
    "collectedFraction slowedPlay = 1 / 4"
    by (simp_all add: slowedPlay_def collectedFraction_def progressOf_def)
  have a: "\<forall>e\<in>set ?es. inPlay e" "Frame 6000 \<in> set ?es" "list_all inPlay ?es"
    by (simp_all add: isKey_def)
  have "\<exists>t. run ?es slowedPlay = Inr t \<and> cheeseLocations t = cheeseLocations slowedPlay
     \<and> currentGameState t = PLAYING"
    by (simp add: slowedPlay_def idle_def specialKeyboard_def keyboard_def catTimer_def
        processPlayerMove_def collectPowerup_def isKey_def Let_def tileAt_def layout1_def
        GLUT_KEY_UP_def GLUT_KEY_DOWN_def GLUT_KEY_LEFT_def GLUT_KEY_RIGHT_def ENTER_KEY_def
        ESCAPE_KEY_def config)
  then obtain t where t: "run ?es slowedPlay = Inr t"
    "cheeseLocations t = cheeseLocations slowedPlay" "currentGameState t = PLAYING"
    by blast
  have "fire (Frame 6000) slowedPlay = Inr ?u" by simp
  with slowedPlay_reachable have u: "?u \<in> reachable" by (rule reachable.callback)
  have v: "currentGameState ?u = PLAYING" "\<not> isCatSlowed ?u"
    "normalCatDelayBeforeSlowdown ?u = 350" "collectedFraction ?u = 1 / 4"
    by (simp_all add: slowedPlay_def idle_def Let_def collectedFraction_def progressOf_def)
  have q: "currentGameState pausedSlowed = PAUSED" "isCatSlowed pausedSlowed"
    "catSlowDurationTimer pausedSlowed = 3000" "currentCatDelay pausedSlowed = 450"
    by (simp_all add: pausedSlowed_def)
  have d: "delayFor (collectedFraction slowedPlay) = 250"
    unfolding f(6) by (rule delayFor_quarter)
  from slow_effect_expiry_recomputes_delay
    [of slowedPlay ?es t 6000 ?u pausedSlowed "[5000, 9000]"]
    slowedPlay_reachable f a t u v q d
  show ?thesis by (simp add: delayFor_quarter)
qed

end
